theory Spec2Isabelle
  imports Main "HOL-Library.Word"
begin

section \<open>The process state and the operating system\<close>

text \<open>
  chrish.c is a small interactive shell. Everything it does beyond computing values goes
  through libc: the standard streams, the heap, the working directory and child
  processes. The model threads a \<open>world\<close> through every function and takes the answers
  of the operating system from a record of oracles \<open>os\<close>.
\<close>

datatype ptr = Null | Addr nat

text \<open>A local variable of the C code that is read before anything was assigned to it.\<close>

datatype 'a local_var = Indeterminate | Holds 'a

text \<open>
  The status that \<open>waitpid\<close> stores: the child exited with a code, was killed by a signal,
  was stopped by a signal, or was continued.
\<close>

datatype wstatus = WExited nat | WSignaled nat | WStopped nat | WContinued

fun WIFEXITED :: "wstatus \<Rightarrow> bool" where
  "WIFEXITED (WExited c) = True"
| "WIFEXITED st = False"

fun WIFSIGNALED :: "wstatus \<Rightarrow> bool" where
  "WIFSIGNALED (WSignaled s) = True"
| "WIFSIGNALED st = False"

record world =
  stdout :: string              \<comment> \<open>everything written to standard output so far\<close>
  stderr :: string              \<comment> \<open>everything written to standard error so far\<close>
  cwd :: string                 \<comment> \<open>the working directory of the process\<close>
  live :: "nat set"             \<comment> \<open>addresses of the heap blocks that are allocated\<close>
  nalloc :: nat                 \<comment> \<open>allocation requests made so far\<close>
  waited :: "wstatus list"      \<comment> \<open>the statuses \<open>waitpid\<close> has reported so far\<close>

text \<open>What \<open>fork\<close> returns: \<open>-1\<close> with an error text, \<open>0\<close> in the child, or the child's pid
  in the parent, together with the state changes of that child that successive calls of
  \<open>waitpid(pid, &status, WUNTRACED)\<close> will report.\<close>

datatype fork_result = ForkFailed string | InChild | InParent nat "wstatus list"

record os =
  sys_malloc :: "nat \<Rightarrow> nat \<Rightarrow> bool"
    \<comment> \<open>does the allocation request with this number and this size in bytes succeed\<close>
  sys_chdir :: "string \<Rightarrow> string \<Rightarrow> string + string"
    \<comment> \<open>working directory and path: the error text of \<open>errno\<close>, or the new directory\<close>
  sys_fork :: "world \<Rightarrow> fork_result"
  sys_execvp :: "string list \<Rightarrow> world \<Rightarrow> string option"
    \<comment> \<open>\<open>None\<close>: the program image was replaced; otherwise the error text of \<open>errno\<close>\<close>

text \<open>
  How a call of a C function ends: it returns a value, the process ends through
  \<open>exit(status)\<close>, the process image is replaced by \<open>execvp\<close>, the process stays blocked
  in \<open>waitpid\<close> for ever, or the behaviour is undefined (an out-of-bounds access, a signed
  overflow, \<open>free\<close> of a pointer that is not a live block).
\<close>

datatype 'a outcome =
    Returns 'a world
  | Exits int world
  | Replaced "string list" world
  | Blocked
  | Undefined

definition EXIT_SUCCESS :: int where
  "EXIT_SUCCESS = 0"

definition EXIT_FAILURE :: int where
  "EXIT_FAILURE = 1"

text \<open>The two continuation signals are the C integers 1 and 0 (the loop runs
  \<open>while (status)\<close>).\<close>

definition Continue :: int where
  "Continue = 1"

definition Terminate :: int where
  "Terminate = 0"

subsection \<open>libc\<close>

definition NL :: char where
  "NL = CHR 0x0A"

definition NUL :: char where
  "NUL = CHR 0x00"

definition put_out :: "string \<Rightarrow> world \<Rightarrow> world" where
  "put_out s w = w\<lparr>stdout := stdout w @ s\<rparr>"

definition put_err :: "string \<Rightarrow> world \<Rightarrow> world" where
  "put_err s w = w\<lparr>stderr := stderr w @ s\<rparr>"

text \<open>\<open>perror("chrish")\<close>: the prefix, a colon and the text of \<open>errno\<close>.\<close>

definition perror :: "string \<Rightarrow> string \<Rightarrow> world \<Rightarrow> world" where
  "perror prefix e w = put_err (prefix @ '': '' @ e @ [NL]) w"

text \<open>Decimal printing, \<open>printf("%d")\<close>.\<close>

function show_nat :: "nat \<Rightarrow> string" where
  "show_nat n =
     (if n < 10 then [''0123456789'' ! n]
      else show_nat (n div 10) @ [''0123456789'' ! (n mod 10)])"
  by pat_completeness auto
termination
  by (relation "measure (\<lambda>n. n)") auto

declare show_nat.simps [simp del]

definition show_int :: "int \<Rightarrow> string" where
  "show_int i = (if i < 0 then CHR ''-'' # show_nat (nat (- i)) else show_nat (nat i))"

text \<open>
  The heap. Every request gets a fresh address, so an address that was freed never
  becomes valid again; \<open>free\<close> of anything but \<open>NULL\<close> or a live block is undefined
  (\<open>None\<close>).
\<close>

definition malloc :: "os \<Rightarrow> nat \<Rightarrow> world \<Rightarrow> ptr \<times> world" where
  "malloc os n w =
     (if sys_malloc os (nalloc w) n
      then (Addr (nalloc w), w\<lparr>live := insert (nalloc w) (live w), nalloc := Suc (nalloc w)\<rparr>)
      else (Null, w\<lparr>nalloc := Suc (nalloc w)\<rparr>))"

definition free :: "ptr \<Rightarrow> world \<Rightarrow> world option" where
  "free p w =
     (case p of
        Null \<Rightarrow> Some w
      | Addr a \<Rightarrow> if a \<in> live w then Some (w\<lparr>live := live w - {a}\<rparr>) else None)"

text \<open>\<open>realloc\<close> of a live block: on success the old block is gone and a new one is
  live; on failure it returns \<open>NULL\<close> and the old block stays.\<close>

definition realloc :: "os \<Rightarrow> ptr \<Rightarrow> nat \<Rightarrow> world \<Rightarrow> (ptr \<times> world) option" where
  "realloc os p n w =
     (case p of
        Null \<Rightarrow> Some (malloc os n w)
      | Addr a \<Rightarrow>
          if a \<notin> live w then None
          else if sys_malloc os (nalloc w) n
          then Some (Addr (nalloc w),
                 w\<lparr>live := insert (nalloc w) (live w - {a}), nalloc := Suc (nalloc w)\<rparr>)
          else Some (Null, w\<lparr>nalloc := Suc (nalloc w)\<rparr>))"

text \<open>Reading an array with its bounds.\<close>

datatype 'a read = OutOfBounds | Read 'a

definition at :: "'a list \<Rightarrow> nat \<Rightarrow> 'a read" where
  "at xs i = (if i < length xs then Read (xs ! i) else OutOfBounds)"

text \<open>
  An argument vector \<open>char **args\<close> is an array of strings followed by a \<open>NULL\<close>: the
  list \<open>args\<close> is the strings, \<open>args[length args]\<close> is the \<open>NULL\<close>, and nothing lies beyond.
\<close>

definition argv_at :: "string list \<Rightarrow> nat \<Rightarrow> string option read" where
  "argv_at args i =
     (if i < length args then Read (Some (args ! i))
      else if i = length args then Read None
      else OutOfBounds)"

section \<open>The builtin commands\<close>

definition builtin_str :: "string list" where
  "builtin_str = [''cd'', ''help'', ''exit'']"

text \<open>\<open>sizeof(builtin_str) / sizeof(char *)\<close>: the number of elements of the name table.\<close>

definition chrish_num_builtins :: nat where
  "chrish_num_builtins = length builtin_str"

definition chrish_cd :: "os \<Rightarrow> string list \<Rightarrow> world \<Rightarrow> int outcome" where
  "chrish_cd os args w =
     (case argv_at args 1 of
        OutOfBounds \<Rightarrow> Undefined
      | Read None \<Rightarrow>
          Returns 1 (put_err (''chrish: expected argument to \"cd\"'' @ [NL]) w)
      | Read (Some path) \<Rightarrow>
          (case sys_chdir os (cwd w) path of
             Inl e \<Rightarrow> Returns 1 (perror ''chrish'' e w)
           | Inr d \<Rightarrow> Returns 1 (w\<lparr>cwd := d\<rparr>)))"

function help_loop :: "nat \<Rightarrow> world \<Rightarrow> world option" where
  "help_loop i w =
     (if i < chrish_num_builtins
      then (case at builtin_str i of
              OutOfBounds \<Rightarrow> None
            | Read name \<Rightarrow> help_loop (i + 1) (put_out (''  '' @ name @ [NL]) w))
      else Some w)"
  by pat_completeness auto
termination
  by (relation "measure (\<lambda>(i, w). chrish_num_builtins - i)") auto

declare help_loop.simps [simp del]

definition chrish_help :: "os \<Rightarrow> string list \<Rightarrow> world \<Rightarrow> int outcome" where
  "chrish_help os args w =
     (let w1 = put_out (''Stephen Brennan's CHRISH'' @ [NL]) w;
          w2 = put_out (''Type program names and arguments, and hit enter.'' @ [NL]) w1;
          w3 = put_out (''The following are built in:'' @ [NL]) w2
      in case help_loop 0 w3 of
           None \<Rightarrow> Undefined
         | Some w4 \<Rightarrow>
             Returns 1
               (put_out (''Use the man command for information on other programs.'' @ [NL]) w4))"

definition chrish_exit :: "os \<Rightarrow> string list \<Rightarrow> world \<Rightarrow> int outcome" where
  "chrish_exit os args w = Returns 0 w"

definition builtin_func :: "(os \<Rightarrow> string list \<Rightarrow> world \<Rightarrow> int outcome) list" where
  "builtin_func = [chrish_cd, chrish_help, chrish_exit]"

section \<open>Launching a program\<close>

text \<open>
  The parent's \<open>do ... while (!WIFEXITED(status) && !WIFSIGNALED(status))\<close>: each call of
  \<open>waitpid\<close> reports the next state change of the child. When the child has no further
  state change to report and has not ended, \<open>waitpid\<close> never returns (\<open>None\<close>). The code
  does not look at what \<open>waitpid\<close> returns; the model covers the runs in which it reports a
  state change of the child.
\<close>

fun wait_loop :: "wstatus list \<Rightarrow> world \<Rightarrow> world option" where
  "wait_loop [] w = None"
| "wait_loop (status # later) w =
     (let w' = w\<lparr>waited := waited w @ [status]\<rparr>
      in if \<not> WIFEXITED status \<and> \<not> WIFSIGNALED status then wait_loop later w' else Some w')"

text \<open>
  \<open>chrish_launch\<close> runs in two processes after \<open>fork\<close>. The child never returns from it:
  its image is replaced, or it reports the error and exits. \<open>execvp(args[0], args)\<close> on a
  vector without a first element has no defined behaviour.
\<close>

definition chrish_launch :: "os \<Rightarrow> string list \<Rightarrow> world \<Rightarrow> int outcome" where
  "chrish_launch os args w =
     (case sys_fork os w of
        InChild \<Rightarrow>
          (case argv_at args 0 of
             Read (Some file) \<Rightarrow>
               (case sys_execvp os args w of
                  None \<Rightarrow> Replaced args w
                | Some e \<Rightarrow> Exits EXIT_FAILURE (perror ''chrish'' e w))
           | _ \<Rightarrow> Undefined)
      | ForkFailed e \<Rightarrow> Returns 1 (perror ''chrish'' e w)
      | InParent pid changes \<Rightarrow>
          (case wait_loop changes w of
             None \<Rightarrow> Blocked
           | Some w' \<Rightarrow> Returns 1 w'))"

section \<open>Dispatch\<close>

function execute_loop :: "os \<Rightarrow> string list \<Rightarrow> nat \<Rightarrow> world \<Rightarrow> int outcome" where
  "execute_loop os args i w =
     (if i < chrish_num_builtins
      then (case (argv_at args 0, at builtin_str i) of
              (Read (Some a0), Read name) \<Rightarrow>
                if a0 = name
                then (case at builtin_func i of
                        Read handler \<Rightarrow> handler os args w
                      | OutOfBounds \<Rightarrow> Undefined)
                else execute_loop os args (i + 1) w
            | _ \<Rightarrow> Undefined)
      else chrish_launch os args w)"
  by pat_completeness auto
termination
  by (relation "measure (\<lambda>(os, args, i, w). chrish_num_builtins - i)") auto

declare execute_loop.simps [simp del]

definition chrish_execute :: "os \<Rightarrow> string list \<Rightarrow> world \<Rightarrow> int outcome" where
  "chrish_execute os args w =
     (case argv_at args 0 of
        OutOfBounds \<Rightarrow> Undefined
      | Read None \<Rightarrow> Returns 1 w
      | Read (Some a0) \<Rightarrow> execute_loop os args 0 w)"

section \<open>Reading and splitting a line\<close>

definition CHRISH_TOK_BUFSIZE :: int where
  "CHRISH_TOK_BUFSIZE = 64"

text \<open>\<open>" \t\r\n\a"\<close>: space, tab, carriage return, newline, bell.\<close>

definition CHRISH_TOK_DELIM :: string where
  "CHRISH_TOK_DELIM = [CHR 0x20, CHR 0x09, CHR 0x0D, CHR 0x0A, CHR 0x07]"

definition is_delim :: "char \<Rightarrow> bool" where
  "is_delim c = (c \<in> set CHRISH_TOK_DELIM)"

definition INT_MAX :: int where
  "INT_MAX = 2147483647"

text \<open>\<open>sizeof(char *)\<close> on a platform with 64-bit pointers.\<close>

definition sizeof_ptr :: nat where
  "sizeof_ptr = 8"

text \<open>The characters of the C string that starts a buffer: those before the first NUL.\<close>

definition c_string :: "string \<Rightarrow> string" where
  "c_string buf = takeWhile (\<lambda>c. c \<noteq> NUL) buf"

text \<open>
  \<open>strtok\<close> on the rest of the string that it saved: it skips delimiters; at the end of
  the string it returns \<open>NULL\<close>; otherwise the token runs up to the next delimiter or the
  end, the delimiter is overwritten by a NUL, and the scan resumes behind it.
\<close>

definition strtok :: "string \<Rightarrow> (string \<times> string) option" where
  "strtok s =
     (let s1 = dropWhile is_delim s
      in if s1 = [] then None
         else Some (takeWhile (\<lambda>c. \<not> is_delim c) s1,
                    drop 1 (dropWhile (\<lambda>c. \<not> is_delim c) s1)))"

lemma strtok_shorter: "strtok s = Some (token, s') \<Longrightarrow> length s' < length s"
proof -
  assume a: "strtok s = Some (token, s')"
  let ?s1 = "dropWhile is_delim s"
  from a have ne: "?s1 \<noteq> []" and s': "s' = drop 1 (dropWhile (\<lambda>c. \<not> is_delim c) ?s1)"
    by (auto simp: strtok_def Let_def split: if_splits)
  from ne have "\<not> is_delim (hd ?s1)"
    by (simp add: hd_dropWhile)
  with ne have "length (dropWhile (\<lambda>c. \<not> is_delim c) ?s1) < length ?s1"
    by (cases ?s1) (auto simp: less_Suc_eq_le length_dropWhile_le)
  moreover have "length ?s1 \<le> length s"
    by (rule length_dropWhile_le)
  ultimately show ?thesis
    using s' by simp
qed

text \<open>
  The \<open>while (token != NULL)\<close> loop of \<open>chrish_split_line\<close>, entered with the rest of the
  string that \<open>strtok\<close> will scan next. \<open>toks\<close> is the contents of \<open>tokens[0 .. position-1]\<close>.
  The counters are C \<open>int\<close>s: an increment beyond \<open>INT_MAX\<close> is undefined, and so is a
  store outside the \<open>bufsize\<close> elements of the block.
\<close>

function split_loop ::
  "os \<Rightarrow> string \<Rightarrow> int \<Rightarrow> int \<Rightarrow> int \<Rightarrow> ptr \<Rightarrow> string list \<Rightarrow> world
     \<Rightarrow> (ptr \<times> string list \<times> int \<times> int \<times> int) outcome" where
  "split_loop os s bufsize position n_tokens tokens toks w =
     (case strtok s of
        None \<Rightarrow> Returns (tokens, toks, bufsize, position, n_tokens) w
      | Some (token, s') \<Rightarrow>
          if n_tokens + 1 > INT_MAX then Undefined
          else if \<not> (0 \<le> position \<and> position < bufsize) then Undefined
          else if position + 1 > INT_MAX then Undefined
          else if position + 1 \<ge> bufsize
          then (if bufsize + CHRISH_TOK_BUFSIZE > INT_MAX then Undefined
                else case realloc os tokens (nat (bufsize + CHRISH_TOK_BUFSIZE) * sizeof_ptr) w of
                       None \<Rightarrow> Undefined
                     | Some (Null, w1) \<Rightarrow>
                         (case free tokens w1 of
                            None \<Rightarrow> Undefined
                          | Some w2 \<Rightarrow>
                              Exits EXIT_FAILURE (put_err (''chrish: allocation error'' @ [NL]) w2))
                     | Some (Addr a, w1) \<Rightarrow>
                         split_loop os s' (bufsize + CHRISH_TOK_BUFSIZE) (position + 1)
                           (n_tokens + 1) (Addr a) (toks @ [token]) w1)
          else split_loop os s' bufsize (position + 1) (n_tokens + 1) tokens (toks @ [token]) w)"
  by pat_completeness auto
termination
  by (relation "measure (\<lambda>(os, s, bufsize, position, n_tokens, tokens, toks, w). length s)")
    (auto simp: strtok_shorter)

declare split_loop.simps [simp del]

definition chrish_split_line :: "os \<Rightarrow> string \<Rightarrow> world \<Rightarrow> (ptr \<times> string list) outcome" where
  "chrish_split_line os line w =
     (case malloc os (nat CHRISH_TOK_BUFSIZE * sizeof_ptr) w of
        (Null, w1) \<Rightarrow> Exits EXIT_FAILURE (put_err (''chrish: allocation error'' @ [NL]) w1)
      | (Addr a, w1) \<Rightarrow>
          (case split_loop os (c_string line) CHRISH_TOK_BUFSIZE 0 0 (Addr a) [] w1 of
             Returns (tokens, toks, bufsize, position, n_tokens) w2 \<Rightarrow>
               if \<not> (0 \<le> position \<and> position < bufsize) then Undefined
               else Returns (tokens, toks) (put_out (show_int n_tokens @ [NL]) w2)
           | Exits st w2 \<Rightarrow> Exits st w2
           | Replaced prog w2 \<Rightarrow> Replaced prog w2
           | Blocked \<Rightarrow> Blocked
           | Undefined \<Rightarrow> Undefined))"

text \<open>
  \<open>getline\<close> with \<open>*line = NULL\<close> and a size of 0 allocates the buffer itself. \<open>input\<close> is
  the lines that the successive calls will deliver, each with its terminator; the empty
  list is the end of the input. It returns the number of characters read, or \<open>-1\<close> at the
  end of the input or when the buffer cannot be allocated (\<open>*line\<close> stays \<open>NULL\<close> then).
\<close>

definition getline :: "os \<Rightarrow> string list \<Rightarrow> world \<Rightarrow> (int \<times> ptr \<times> string) \<times> string list \<times> world" where
  "getline os input w =
     (case malloc os (Suc (length (concat (take 1 input)))) w of
        (Null, w1) \<Rightarrow> ((- 1, Null, []), input, w1)
      | (Addr a, w1) \<Rightarrow>
          (case input of
             [] \<Rightarrow> ((- 1, Addr a, []), [], w1)
           | l # later \<Rightarrow> ((int (length l), Addr a, l), later, w1)))"

text \<open>\<open>chrish_read_line\<close> returns \<open>getline\<close>'s \<open>ssize_t\<close> as an \<open>int\<close>: its low 32 bits.\<close>

definition chrish_read_line ::
  "os \<Rightarrow> string list \<Rightarrow> world \<Rightarrow> (int \<times> ptr \<times> string) \<times> string list \<times> world" where
  "chrish_read_line os input w =
     (case getline os input w of
        ((n, line, text), input', w') \<Rightarrow> ((sint (word_of_int n :: 32 word), line, text), input', w'))"

section \<open>The interactive loop\<close>

text \<open>
  One pass through the body of the \<open>do ... while (status)\<close> loop. \<open>args\<close> is the local
  variable of \<open>chrish_loop\<close>, declared outside the loop and without an initial value. The
  pass returns \<open>status\<close>, the new value of \<open>args\<close> and the input that is left.
\<close>

definition chrish_iteration ::
  "os \<Rightarrow> ptr local_var \<Rightarrow> string list \<Rightarrow> world \<Rightarrow> (int \<times> ptr local_var \<times> string list) outcome" where
  "chrish_iteration os args input w =
     (case chrish_read_line os input (put_out ''> '' w) of
        ((ret, line, text), input', w1) \<Rightarrow>
          let w2 = put_out (show_int ret @ [NL]) w1
          in if ret = - 1
             then (case free line w2 of
                     None \<Rightarrow> Undefined
                   | Some w3 \<Rightarrow>
                       (case args of
                          Indeterminate \<Rightarrow> Undefined
                        | Holds p \<Rightarrow>
                            (case free p w3 of
                               None \<Rightarrow> Undefined
                             | Some w4 \<Rightarrow> Exits EXIT_SUCCESS w4)))
             else (case chrish_split_line os text w2 of
                     Returns (tokens, toks) w3 \<Rightarrow>
                       (case chrish_execute os toks w3 of
                          Returns status w4 \<Rightarrow>
                            (case free line w4 of
                               None \<Rightarrow> Undefined
                             | Some w5 \<Rightarrow>
                                 (case free tokens w5 of
                                    None \<Rightarrow> Undefined
                                  | Some w6 \<Rightarrow> Returns (status, Holds tokens, input') w6))
                        | Exits st w4 \<Rightarrow> Exits st w4
                        | Replaced prog w4 \<Rightarrow> Replaced prog w4
                        | Blocked \<Rightarrow> Blocked
                        | Undefined \<Rightarrow> Undefined)
                   | Exits st w3 \<Rightarrow> Exits st w3
                   | Replaced prog w3 \<Rightarrow> Replaced prog w3
                   | Blocked \<Rightarrow> Blocked
                   | Undefined \<Rightarrow> Undefined))"

lemma chrish_iteration_consumes:
  "chrish_iteration os args input w = Returns (status, args', input') w' \<Longrightarrow>
   length input' < length input"
  by (auto simp: chrish_iteration_def chrish_read_line_def getline_def Let_def
      split: prod.splits if_splits option.splits outcome.splits ptr.splits list.splits
        local_var.splits)

function chrish_loop :: "os \<Rightarrow> ptr local_var \<Rightarrow> string list \<Rightarrow> world \<Rightarrow> unit outcome" where
  "chrish_loop os args input w =
     (case chrish_iteration os args input w of
        Returns (status, args', input') w' \<Rightarrow>
          if status \<noteq> 0 then chrish_loop os args' input' w' else Returns () w'
      | Exits st w' \<Rightarrow> Exits st w'
      | Replaced prog w' \<Rightarrow> Replaced prog w'
      | Blocked \<Rightarrow> Blocked
      | Undefined \<Rightarrow> Undefined)"
  by pat_completeness auto
termination
  by (relation "measure (\<lambda>(os, args, input, w). length input)")
    (auto simp: chrish_iteration_consumes)

declare chrish_loop.simps [simp del]

text \<open>\<open>main\<close> runs the loop and returns \<open>EXIT_SUCCESS\<close>, which ends the process.\<close>

definition main :: "os \<Rightarrow> string list \<Rightarrow> world \<Rightarrow> unit outcome" where
  "main os input w =
     (case chrish_loop os Indeterminate input w of
        Returns u w' \<Rightarrow> Exits EXIT_SUCCESS w'
      | Exits st w' \<Rightarrow> Exits st w'
      | Replaced prog w' \<Rightarrow> Replaced prog w'
      | Blocked \<Rightarrow> Blocked
      | Undefined \<Rightarrow> Undefined)"

section \<open>What tokenization is to produce\<close>

text \<open>
  The specification of the tokenizer in its own words: the maximal runs of characters
  that are not delimiters, in the order of the text. \<open>runs_from run s\<close> scans \<open>s\<close> with the
  run that is being read in \<open>run\<close>.
\<close>

fun runs_from :: "string \<Rightarrow> string \<Rightarrow> string list" where
  "runs_from run [] = (if run = [] then [] else [run])"
| "runs_from run (c # cs) =
     (if is_delim c then (if run = [] then runs_from [] cs else run # runs_from [] cs)
      else runs_from (run @ [c]) cs)"

definition maximal_runs :: "string \<Rightarrow> string list" where
  "maximal_runs s = runs_from [] s"

text \<open>A word is not empty and has no delimiter; a separator is not empty and has nothing
  else.\<close>

definition is_word :: "string \<Rightarrow> bool" where
  "is_word t = (t \<noteq> [] \<and> list_all (\<lambda>c. \<not> is_delim c) t)"

definition is_separator :: "string \<Rightarrow> bool" where
  "is_separator t = (t \<noteq> [] \<and> list_all is_delim t)"

text \<open>The line made of words, each followed by a separator.\<close>

fun words_line :: "(string \<times> string) list \<Rightarrow> string" where
  "words_line [] = []"
| "words_line ((word, sep) # later) = word @ sep @ words_line later"

text \<open>The first token of the limit: with this many tokens \<open>bufsize\<close> would pass
  \<open>INT_MAX\<close>.\<close>

definition token_limit :: nat where
  "token_limit = 2147483584"

text \<open>Every live block was handed out by an earlier request.\<close>

definition heap_ok :: "world \<Rightarrow> bool" where
  "heap_ok w = (\<forall>a \<in> live w. a < nalloc w)"

text \<open>
  The allocation requests of \<open>chrish_split_line\<close>, counted from 0: request 0 is the
  \<open>malloc\<close> of 64 pointers, request \<open>i\<close> the \<open>realloc\<close> to \<open>64 * (i + 1)\<close> pointers, of 8 bytes
  each. \<open>base\<close> is the number of requests the process made before.
\<close>

definition request_granted :: "os \<Rightarrow> nat \<Rightarrow> nat \<Rightarrow> bool" where
  "request_granted os base i = sys_malloc os (base + i) (512 * Suc i)"

text \<open>The variable \<open>args\<close> holds nothing that may be passed to \<open>free\<close>: it was never
  assigned, or it points to a block that is not live.\<close>

definition dangling :: "world \<Rightarrow> ptr local_var \<Rightarrow> bool" where
  "dangling w args =
     (case args of
        Indeterminate \<Rightarrow> True
      | Holds Null \<Rightarrow> False
      | Holds (Addr a) \<Rightarrow> a \<notin> live w)"

section \<open>Example environment\<close>

text \<open>A world and an operating system on which the theorems below are instantiated.\<close>

definition example_world :: world where
  "example_world =
     \<lparr>stdout = [], stderr = [], cwd = ''/home'', live = {}, nalloc = 0, waited = []\<rparr>"

definition example_os :: os where
  "example_os =
     \<lparr>sys_malloc = (\<lambda>i n. True),
      sys_chdir = (\<lambda>d p. if p = ''/tmp'' then Inr ''/tmp'' else Inl ''No such file or directory''),
      sys_fork = (\<lambda>w. InParent 7 [WStopped 19, WExited 0]),
      sys_execvp = (\<lambda>args w. Some ''No such file or directory'')\<rparr>"

text \<open>The launch at \<open>w\<close> returns to the shell: \<open>fork\<close> failed, or this is the parent and
  the child reports an exit or a death by signal.\<close>

definition launch_completes :: "os \<Rightarrow> world \<Rightarrow> bool" where
  "launch_completes os w =
     (case sys_fork os w of
        ForkFailed e \<Rightarrow> True
      | InChild \<Rightarrow> False
      | InParent pid changes \<Rightarrow> list_ex (\<lambda>s. WIFEXITED s \<or> WIFSIGNALED s) changes)"

section \<open>Builtins, launch and dispatch: proofs\<close>

lemma chrish_num_builtins_3: "chrish_num_builtins = 3"
  by (simp add: chrish_num_builtins_def builtin_str_def)

lemma help_loop_3: "help_loop 3 w = Some w"
  by (subst help_loop.simps) (simp add: chrish_num_builtins_3)

lemma help_loop_2: "help_loop 2 w = Some (put_out (''  exit'' @ [NL]) w)"
  by (subst help_loop.simps)
    (simp add: chrish_num_builtins_3 at_def builtin_str_def help_loop_3)

lemma help_loop_1:
  "help_loop (Suc 0) w = Some (put_out (''  exit'' @ [NL]) (put_out (''  help'' @ [NL]) w))"
  by (subst help_loop.simps)
    (simp add: chrish_num_builtins_3 at_def builtin_str_def help_loop_2
      numeral_2_eq_2 [symmetric])

lemma help_loop_all:
  "help_loop 0 w = Some (put_out (concat (map (\<lambda>name. ''  '' @ name @ [NL]) builtin_str)) w)"
  by (subst help_loop.simps)
    (simp add: chrish_num_builtins_3 at_def builtin_str_def help_loop_1 put_out_def)

lemma execute_loop_3: "execute_loop os args 3 w = chrish_launch os args w"
  by (subst execute_loop.simps) (simp add: chrish_num_builtins_3)

lemma execute_loop_2:
  "execute_loop os (a0 # rest) 2 w =
     (if a0 = ''exit'' then chrish_exit os (a0 # rest) w else chrish_launch os (a0 # rest) w)"
  by (subst execute_loop.simps)
    (simp add: chrish_num_builtins_3 at_def argv_at_def builtin_str_def builtin_func_def
      execute_loop_3)

lemma execute_loop_1:
  "execute_loop os (a0 # rest) (Suc 0) w =
     (if a0 = ''help'' then chrish_help os (a0 # rest) w else execute_loop os (a0 # rest) 2 w)"
  by (subst execute_loop.simps)
    (simp add: chrish_num_builtins_3 at_def argv_at_def builtin_str_def builtin_func_def
      numeral_2_eq_2 [symmetric])

lemma execute_loop_dispatch:
  "execute_loop os (a0 # rest) 0 w =
     (if a0 = ''cd'' then chrish_cd os (a0 # rest) w
      else if a0 = ''help'' then chrish_help os (a0 # rest) w
      else if a0 = ''exit'' then chrish_exit os (a0 # rest) w
      else chrish_launch os (a0 # rest) w)"
  by (subst execute_loop.simps)
    (simp add: chrish_num_builtins_3 at_def argv_at_def builtin_str_def builtin_func_def
      execute_loop_1 execute_loop_2)

lemma chrish_execute_dispatch:
  "chrish_execute os args w =
     (case args of
        [] \<Rightarrow> Returns 1 w
      | a0 # rest \<Rightarrow>
          if a0 = ''cd'' then chrish_cd os args w
          else if a0 = ''help'' then chrish_help os args w
          else if a0 = ''exit'' then chrish_exit os args w
          else chrish_launch os args w)"
  by (cases args) (simp_all add: chrish_execute_def argv_at_def execute_loop_dispatch)


lemma wait_loop_ends:
  "\<forall>s \<in> set pre. \<not> WIFEXITED s \<and> \<not> WIFSIGNALED s \<Longrightarrow> WIFEXITED st \<or> WIFSIGNALED st \<Longrightarrow>
   wait_loop (pre @ st # post) w = Some (w\<lparr>waited := waited w @ pre @ [st]\<rparr>)"
  by (induction pre arbitrary: w) auto

lemma wait_loop_blocks:
  "\<forall>s \<in> set changes. \<not> WIFEXITED s \<and> \<not> WIFSIGNALED s \<Longrightarrow> wait_loop changes w = None"
  by (induction changes arbitrary: w) auto

lemma wait_loop_Some:
  "list_ex (\<lambda>s. WIFEXITED s \<or> WIFSIGNALED s) changes \<Longrightarrow> \<exists>w'. wait_loop changes w = Some w'"
  by (induction changes arbitrary: w) (auto simp: Let_def)

lemma chrish_launch_value: "chrish_launch os args w = Returns v w' \<Longrightarrow> v = 1"
  by (auto simp: chrish_launch_def split: fork_result.splits read.splits option.splits)

lemma chrish_launch_completes:
  assumes "launch_completes os w"
  shows "\<exists>w'. chrish_launch os args w = Returns 1 w'"
proof (cases "sys_fork os w")
  case (ForkFailed e)
  then show ?thesis by (simp add: chrish_launch_def)
next
  case InChild
  with assms show ?thesis by (simp add: launch_completes_def)
next
  case (InParent pid changes)
  with assms obtain w' where "wait_loop changes w = Some w'"
    using wait_loop_Some [of changes w] by (auto simp: launch_completes_def)
  with InParent show ?thesis by (simp add: chrish_launch_def)
qed

lemma chrish_cd_value: "args \<noteq> [] \<Longrightarrow> \<exists>w'. chrish_cd os args w = Returns 1 w'"
  by (cases args) (auto simp: chrish_cd_def argv_at_def split: sum.splits)

lemma chrish_help_eq:
  "chrish_help os args w =
     Returns 1
       (put_out
          (''Stephen Brennan's CHRISH'' @ [NL] @
           ''Type program names and arguments, and hit enter.'' @ [NL] @
           ''The following are built in:'' @ [NL] @
           concat (map (\<lambda>name. ''  '' @ name @ [NL]) builtin_str) @
           ''Use the man command for information on other programs.'' @ [NL]) w)"
  by (simp add: chrish_help_def help_loop_all put_out_def)

text \<open>
  C3. \<open>cd\<close> without an argument after the command name writes the usage message to the
  error stream and changes nothing else, in particular not the working directory. With a
  path it asks the operating system to change to that path: when that fails, the text of
  the error goes to the error stream behind \<open>chrish: \<close> and the working directory stays;
  when it succeeds, the working directory is the new one. In every case (the vector holds
  at least the command name) \<open>cd\<close> returns \<open>Continue\<close>.
\<close>
theorem chrish_cd_contract:
  "chrish_cd os [c] w =
     Returns Continue (w\<lparr>stderr := stderr w @ ''chrish: expected argument to \"cd\"'' @ [NL]\<rparr>)
   \<and> (\<forall>e. sys_chdir os (cwd w) path = Inl e \<longrightarrow>
         chrish_cd os (c # path # rest) w =
           Returns Continue (w\<lparr>stderr := stderr w @ ''chrish: '' @ e @ [NL]\<rparr>))
   \<and> (\<forall>d. sys_chdir os (cwd w) path = Inr d \<longrightarrow>
         chrish_cd os (c # path # rest) w = Returns Continue (w\<lparr>cwd := d\<rparr>))
   \<and> (args \<noteq> [] \<longrightarrow> (\<exists>w'. chrish_cd os args w = Returns Continue w'))"
  using chrish_cd_value [of args os w]
  by (simp add: chrish_cd_def argv_at_def Continue_def put_err_def perror_def)

theorem chrish_cd_contract_witness:
  "chrish_cd example_os [''cd''] example_world =
     Returns Continue
       (example_world\<lparr>stderr := ''chrish: expected argument to \"cd\"'' @ [NL]\<rparr>)
   \<and> chrish_cd example_os [''cd'', ''/no/such/path''] example_world =
       Returns Continue
         (example_world\<lparr>stderr := ''chrish: No such file or directory'' @ [NL]\<rparr>)
   \<and> chrish_cd example_os [''cd'', ''/tmp''] example_world =
       Returns Continue (example_world\<lparr>cwd := ''/tmp''\<rparr>)
   \<and> (\<exists>w'. chrish_cd example_os [''cd'', ''/tmp'', ''x''] example_world = Returns Continue w')"
proof -
  have bad: "sys_chdir example_os (cwd example_world) ''/no/such/path'' =
      Inl ''No such file or directory''"
    by (simp add: example_os_def)
  have good: "sys_chdir example_os (cwd example_world) ''/tmp'' = Inr ''/tmp''"
    by (simp add: example_os_def)
  have ne: "[''cd'', ''/tmp'', ''x''] \<noteq> []"
    by simp
  show ?thesis
    using chrish_cd_contract [of example_os "''cd''" example_world "''/no/such/path''" "[]"
        "[''cd'', ''/tmp'', ''x'']"]
      chrish_cd_contract [of example_os "''cd''" example_world "''/tmp''" "[]" "[]"]
      bad good ne
    by (simp add: example_world_def)
qed

text \<open>
  C7. \<open>help\<close> returns \<open>Continue\<close> whatever its arguments are, and what it appends to the
  standard output does not depend on them: the banner, one line for each name of the name
  table in the order of the table (\<open>cd\<close>, \<open>help\<close>, \<open>exit\<close>), and the closing note.
\<close>
theorem chrish_help_contract:
  "chrish_help os args w =
     Returns Continue
       (w\<lparr>stdout := stdout w @
           ''Stephen Brennan's CHRISH'' @ [NL] @
           ''Type program names and arguments, and hit enter.'' @ [NL] @
           ''The following are built in:'' @ [NL] @
           concat (map (\<lambda>name. ''  '' @ name @ [NL]) builtin_str) @
           ''Use the man command for information on other programs.'' @ [NL]\<rparr>)
   \<and> builtin_str = [''cd'', ''help'', ''exit'']"
  by (simp add: chrish_help_eq Continue_def put_out_def builtin_str_def)

text \<open>
  C10. The two tables have the same length, which is what \<open>chrish_num_builtins\<close> returns,
  3; they pair \<open>cd\<close>, \<open>help\<close> and \<open>exit\<close> with \<open>chrish_cd\<close>, \<open>chrish_help\<close> and
  \<open>chrish_exit\<close>. Every index below \<open>chrish_num_builtins\<close> is within both tables, the
  handler that dispatch calls for a name of the table is the one at the same index, and no
  run of dispatch reads outside an array. The tables are constants of the model, as no
  statement of the program assigns to them.
\<close>
theorem builtin_tables_aligned:
  "length builtin_str = length builtin_func
   \<and> chrish_num_builtins = length builtin_str
   \<and> chrish_num_builtins = 3
   \<and> zip builtin_str builtin_func =
       [(''cd'', chrish_cd), (''help'', chrish_help), (''exit'', chrish_exit)]
   \<and> (\<forall>i. i < chrish_num_builtins \<longrightarrow>
         at builtin_str i = Read (builtin_str ! i) \<and> at builtin_func i = Read (builtin_func ! i))
   \<and> (\<forall>i. i < chrish_num_builtins \<and> args \<noteq> [] \<and> hd args = builtin_str ! i \<longrightarrow>
         chrish_execute os args w = (builtin_func ! i) os args w)
   \<and> chrish_execute os args w \<noteq> Undefined"
proof -
  have paired: "chrish_execute os args w = (builtin_func ! i) os args w"
    if "i < chrish_num_builtins" "args \<noteq> []" "hd args = builtin_str ! i" for i
  proof -
    from that(1) have "i = 0 \<or> i = 1 \<or> i = 2"
      by (auto simp: chrish_num_builtins_3)
    with that(2,3) show ?thesis
      by (cases args) (auto simp: chrish_execute_dispatch builtin_str_def builtin_func_def)
  qed
  have defined: "chrish_execute os args w \<noteq> Undefined"
  proof (cases args)
    case Nil
    then show ?thesis by (simp add: chrish_execute_dispatch)
  next
    case (Cons a0 rest)
    have "\<forall>a. chrish_cd os (a # rest) w \<noteq> Undefined"
      by (auto simp: chrish_cd_def argv_at_def split: sum.splits)
    moreover have "chrish_launch os (a0 # rest) w \<noteq> Undefined"
      by (auto simp: chrish_launch_def argv_at_def split: fork_result.splits option.splits)
    ultimately show ?thesis
      using Cons by (simp add: chrish_execute_dispatch chrish_help_eq chrish_exit_def)
  qed
  show ?thesis
    using paired defined
    by (simp add: chrish_num_builtins_3 at_def) (simp add: builtin_str_def builtin_func_def)
qed

theorem builtin_tables_aligned_witness:
  "at builtin_str 2 = Read ''exit'' \<and> at builtin_func 2 = Read chrish_exit
   \<and> chrish_execute example_os [''exit'', ''now''] example_world = Returns 0 example_world"
proof -
  have "(2::nat) < chrish_num_builtins \<and> [''exit'', ''now''] \<noteq> []
      \<and> hd [''exit'', ''now''] = builtin_str ! 2"
    by (simp add: chrish_num_builtins_3 builtin_str_def)
  moreover have "\<forall>i. i < chrish_num_builtins \<and> [''exit'', ''now''] \<noteq> []
        \<and> hd [''exit'', ''now''] = builtin_str ! i \<longrightarrow>
      chrish_execute example_os [''exit'', ''now''] example_world =
        (builtin_func ! i) example_os [''exit'', ''now''] example_world"
    using builtin_tables_aligned [of "[''exit'', ''now'']" example_os example_world] by blast
  ultimately have "chrish_execute example_os [''exit'', ''now''] example_world =
      (builtin_func ! 2) example_os [''exit'', ''now''] example_world"
    by blast
  then show ?thesis
    by (simp add: builtin_func_def chrish_exit_def at_def builtin_str_def)
qed

text \<open>
  C4. Whenever \<open>chrish_launch\<close> returns, it returns \<open>Continue\<close>. When \<open>fork\<close> fails, the
  error is written to the error stream and the call returns without any \<open>waitpid\<close> (the
  record of waits is as before). In the child, when \<open>execvp\<close> fails, the error is written
  to the error stream and the child ends through \<open>exit(EXIT_FAILURE)\<close>. The parent's wait
  steps over every reported state that is neither an exit nor a death by signal, and
  returns at the first that is one; when no such state is ever reported it stays blocked.
\<close>
theorem chrish_launch_contract:
  "(\<forall>v w'. chrish_launch os args w = Returns v w' \<longrightarrow> v = Continue)
   \<and> (\<forall>e. sys_fork os w = ForkFailed e \<longrightarrow>
         chrish_launch os args w =
           Returns Continue (w\<lparr>stderr := stderr w @ ''chrish: '' @ e @ [NL]\<rparr>))
   \<and> (\<forall>e. sys_fork os w = InChild \<and> args \<noteq> [] \<and> sys_execvp os args w = Some e \<longrightarrow>
         chrish_launch os args w =
           Exits EXIT_FAILURE (w\<lparr>stderr := stderr w @ ''chrish: '' @ e @ [NL]\<rparr>))
   \<and> (\<forall>pid pre st post.
         sys_fork os w = InParent pid (pre @ st # post)
         \<and> (\<forall>s \<in> set pre. \<not> WIFEXITED s \<and> \<not> WIFSIGNALED s)
         \<and> (WIFEXITED st \<or> WIFSIGNALED st) \<longrightarrow>
         chrish_launch os args w = Returns Continue (w\<lparr>waited := waited w @ pre @ [st]\<rparr>))
   \<and> (\<forall>pid changes.
         sys_fork os w = InParent pid changes
         \<and> (\<forall>s \<in> set changes. \<not> WIFEXITED s \<and> \<not> WIFSIGNALED s) \<longrightarrow>
         chrish_launch os args w = Blocked)"
proof -
  have a: "\<forall>v w'. chrish_launch os args w = Returns v w' \<longrightarrow> v = Continue"
    using chrish_launch_value by (auto simp: Continue_def)
  have b: "\<forall>e. sys_fork os w = ForkFailed e \<longrightarrow>
         chrish_launch os args w =
           Returns Continue (w\<lparr>stderr := stderr w @ ''chrish: '' @ e @ [NL]\<rparr>)"
    by (simp add: chrish_launch_def Continue_def perror_def put_err_def)
  have c: "\<forall>e. sys_fork os w = InChild \<and> args \<noteq> [] \<and> sys_execvp os args w = Some e \<longrightarrow>
         chrish_launch os args w =
           Exits EXIT_FAILURE (w\<lparr>stderr := stderr w @ ''chrish: '' @ e @ [NL]\<rparr>)"
    by (cases args) (simp_all add: chrish_launch_def argv_at_def perror_def put_err_def)
  have d: "\<forall>pid pre st post.
         sys_fork os w = InParent pid (pre @ st # post)
         \<and> (\<forall>s \<in> set pre. \<not> WIFEXITED s \<and> \<not> WIFSIGNALED s)
         \<and> (WIFEXITED st \<or> WIFSIGNALED st) \<longrightarrow>
         chrish_launch os args w = Returns Continue (w\<lparr>waited := waited w @ pre @ [st]\<rparr>)"
    by (simp add: chrish_launch_def Continue_def wait_loop_ends)
  have e: "\<forall>pid changes.
         sys_fork os w = InParent pid changes
         \<and> (\<forall>s \<in> set changes. \<not> WIFEXITED s \<and> \<not> WIFSIGNALED s) \<longrightarrow>
         chrish_launch os args w = Blocked"
    by (simp add: chrish_launch_def wait_loop_blocks)
  from a b c d e show ?thesis by blast
qed


theorem chrish_launch_contract_witness:
  "chrish_launch (example_os\<lparr>sys_fork := (\<lambda>w. ForkFailed ''Resource temporarily unavailable'')\<rparr>)
       [''ls''] example_world =
     Returns Continue
       (example_world\<lparr>stderr := ''chrish: Resource temporarily unavailable'' @ [NL]\<rparr>)
   \<and> chrish_launch (example_os\<lparr>sys_fork := (\<lambda>w. InChild)\<rparr>)
       [''this-cmd-does-not-exist''] example_world =
     Exits EXIT_FAILURE (example_world\<lparr>stderr := ''chrish: No such file or directory'' @ [NL]\<rparr>)
   \<and> chrish_launch example_os [''ls''] example_world =
     Returns Continue (example_world\<lparr>waited := [WStopped 19, WExited 0]\<rparr>)
   \<and> chrish_launch (example_os\<lparr>sys_fork := (\<lambda>w. InParent 7 [WStopped 19, WContinued])\<rparr>)
       [''ls''] example_world = Blocked"
proof -
  let ?failing = "example_os\<lparr>sys_fork := (\<lambda>w. ForkFailed ''Resource temporarily unavailable'')\<rparr>"
  let ?child = "example_os\<lparr>sys_fork := (\<lambda>w. InChild)\<rparr>"
  let ?stuck = "example_os\<lparr>sys_fork := (\<lambda>w. InParent 7 [WStopped 19, WContinued])\<rparr>"
  have 1: "sys_fork ?failing example_world = ForkFailed ''Resource temporarily unavailable''"
    by simp
  have 2: "sys_fork ?child example_world = InChild
      \<and> [''this-cmd-does-not-exist''] \<noteq> []
      \<and> sys_execvp ?child [''this-cmd-does-not-exist''] example_world =
          Some ''No such file or directory''"
    by (simp add: example_os_def)
  have 3: "sys_fork example_os example_world = InParent 7 ([WStopped 19] @ WExited 0 # [])
      \<and> (\<forall>s \<in> set [WStopped 19]. \<not> WIFEXITED s \<and> \<not> WIFSIGNALED s)
      \<and> (WIFEXITED (WExited 0) \<or> WIFSIGNALED (WExited 0))"
    by (simp add: example_os_def)
  have 4: "sys_fork ?stuck example_world = InParent 7 [WStopped 19, WContinued]
      \<and> (\<forall>s \<in> set [WStopped 19, WContinued]. \<not> WIFEXITED s \<and> \<not> WIFSIGNALED s)"
    by simp
  have "chrish_launch ?failing [''ls''] example_world =
      Returns Continue (example_world\<lparr>stderr := stderr example_world @ ''chrish: '' @
        ''Resource temporarily unavailable'' @ [NL]\<rparr>)"
    using chrish_launch_contract [of ?failing "[''ls'']" example_world] 1 by blast
  moreover have "chrish_launch ?child [''this-cmd-does-not-exist''] example_world =
      Exits EXIT_FAILURE (example_world\<lparr>stderr := stderr example_world @ ''chrish: '' @
        ''No such file or directory'' @ [NL]\<rparr>)"
    using chrish_launch_contract [of ?child "[''this-cmd-does-not-exist'']" example_world] 2
    by blast
  moreover have "chrish_launch example_os [''ls''] example_world =
      Returns Continue (example_world\<lparr>waited := waited example_world @ [WStopped 19] @ [WExited 0]\<rparr>)"
    using chrish_launch_contract [of example_os "[''ls'']" example_world] 3 by blast
  moreover have "chrish_launch ?stuck [''ls''] example_world = Blocked"
    using chrish_launch_contract [of ?stuck "[''ls'']" example_world] 4 by blast
  ultimately show ?thesis
    by (simp add: example_world_def)
qed

text \<open>
  C1. Whenever \<open>chrish_execute\<close> returns, the value is one of the two signals, and it is
  \<open>Terminate\<close> exactly when the vector is not empty and its first element is \<open>exit\<close>. It
  does return for the empty vector and for every builtin, and for any other command when
  the launch completes (\<open>fork\<close> failed, or the child ends). For the empty vector it returns
  \<open>Continue\<close> with the world untouched.
\<close>
theorem chrish_execute_signal:
  "(\<forall>s w'. chrish_execute os args w = Returns s w' \<longrightarrow>
       (s = Terminate \<or> s = Continue) \<and> (s = Terminate \<longleftrightarrow> args \<noteq> [] \<and> hd args = ''exit''))
   \<and> ((args \<noteq> [] \<and> hd args \<notin> set builtin_str \<longrightarrow> launch_completes os w) \<longrightarrow>
        (\<exists>s w'. chrish_execute os args w = Returns s w'))
   \<and> chrish_execute os [] w = Returns Continue w"
proof -
  have signal: "(s = Terminate \<or> s = Continue) \<and> (s = Terminate \<longleftrightarrow> args \<noteq> [] \<and> hd args = ''exit'')"
    if "chrish_execute os args w = Returns s w'" for s w'
  proof (cases args)
    case Nil
    with that show ?thesis
      by (auto simp: chrish_execute_dispatch Terminate_def Continue_def)
  next
    case (Cons a0 rest)
    consider "a0 = ''cd''" | "a0 = ''help''" | "a0 = ''exit''"
      | "a0 \<noteq> ''cd''" "a0 \<noteq> ''help''" "a0 \<noteq> ''exit''"
      by blast
    then show ?thesis
    proof cases
      case 1
      with that Cons chrish_cd_value [of args os w] show ?thesis
        by (auto simp: chrish_execute_dispatch Terminate_def Continue_def)
    next
      case 2
      with that Cons show ?thesis
        by (auto simp: chrish_execute_dispatch chrish_help_eq Terminate_def Continue_def)
    next
      case 3
      with that Cons show ?thesis
        by (auto simp: chrish_execute_dispatch chrish_exit_def Terminate_def Continue_def)
    next
      case 4
      with that Cons have "chrish_launch os args w = Returns s w'"
        by (simp add: chrish_execute_dispatch)
      then have "s = 1" by (rule chrish_launch_value)
      with 4 Cons show ?thesis
        by (simp add: Terminate_def Continue_def)
    qed
  qed
  have returns: "\<exists>s w'. chrish_execute os args w = Returns s w'"
    if "args \<noteq> [] \<and> hd args \<notin> set builtin_str \<longrightarrow> launch_completes os w"
  proof (cases args)
    case Nil
    then show ?thesis by (simp add: chrish_execute_dispatch)
  next
    case (Cons a0 rest)
    show ?thesis
    proof (cases "a0 \<in> set builtin_str")
      case True
      with Cons chrish_cd_value [of args os w] show ?thesis
        by (auto simp: chrish_execute_dispatch chrish_help_eq chrish_exit_def builtin_str_def)
    next
      case False
      with that Cons have "launch_completes os w" by simp
      then obtain w' where "chrish_launch os args w = Returns 1 w'"
        using chrish_launch_completes by blast
      with False Cons show ?thesis
        by (auto simp: chrish_execute_dispatch builtin_str_def)
    qed
  qed
  have "chrish_execute os [] w = Returns Continue w"
    by (simp add: chrish_execute_dispatch Continue_def)
  with signal returns show ?thesis by blast
qed

theorem chrish_execute_signal_witness:
  "chrish_execute example_os [''exit'', ''1''] example_world = Returns Terminate example_world
   \<and> (\<exists>w'. chrish_execute example_os [''ls'', ''-l''] example_world = Returns Continue w')
   \<and> chrish_execute example_os [] example_world = Returns Continue example_world"
proof -
  have exit_ok: "[''exit'', ''1''] \<noteq> [] \<and> hd [''exit'', ''1''] \<notin> set builtin_str
      \<longrightarrow> launch_completes example_os example_world"
    by (simp add: builtin_str_def)
  have ls_ok: "[''ls'', ''-l''] \<noteq> [] \<and> hd [''ls'', ''-l''] \<notin> set builtin_str
      \<longrightarrow> launch_completes example_os example_world"
    by (simp add: launch_completes_def example_os_def)
  from exit_ok obtain s1 w1
    where r1: "chrish_execute example_os [''exit'', ''1''] example_world = Returns s1 w1"
    using chrish_execute_signal [of example_os "[''exit'', ''1'']" example_world] by blast
  then have "s1 = Terminate"
    using chrish_execute_signal [of example_os "[''exit'', ''1'']" example_world] by simp
  moreover from r1 have "w1 = example_world"
    by (simp add: chrish_execute_dispatch chrish_exit_def)
  moreover from ls_ok obtain s2 w2
    where r2: "chrish_execute example_os [''ls'', ''-l''] example_world = Returns s2 w2"
    using chrish_execute_signal [of example_os "[''ls'', ''-l'']" example_world] by blast
  then have "s2 = Continue"
    using chrish_execute_signal [of example_os "[''ls'', ''-l'']" example_world]
    by (auto simp: Terminate_def Continue_def)
  ultimately show ?thesis
    using r1 r2 chrish_execute_signal [of example_os "[]" example_world] by blast
qed


section \<open>Splitting a line: proofs\<close>

subsection \<open>strtok and the runs of the specification\<close>

lemma runs_from_split:
  "runs_from run s =
     (if run @ takeWhile (\<lambda>c. \<not> is_delim c) s = [] then []
      else [run @ takeWhile (\<lambda>c. \<not> is_delim c) s])
     @ runs_from [] (drop 1 (dropWhile (\<lambda>c. \<not> is_delim c) s))"
  by (induction s arbitrary: run) auto

lemma runs_from_skip: "runs_from [] (dropWhile is_delim s) = runs_from [] s"
  by (induction s) auto

lemma maximal_runs_strtok:
  "maximal_runs s = (case strtok s of None \<Rightarrow> [] | Some (token, s') \<Rightarrow> token # maximal_runs s')"
proof -
  let ?s1 = "dropWhile is_delim s"
  show ?thesis
  proof (cases "?s1 = []")
    case True
    have "runs_from [] ?s1 = runs_from [] s"
      by (rule runs_from_skip)
    then have "runs_from [] s = []"
      unfolding True by simp
    moreover from True have "strtok s = None"
      by (simp add: strtok_def Let_def)
    ultimately show ?thesis
      by (simp add: maximal_runs_def)
  next
    case False
    then have "\<not> is_delim (hd ?s1)"
      by (simp add: hd_dropWhile)
    with False have "takeWhile (\<lambda>c. \<not> is_delim c) ?s1 \<noteq> []"
      by (cases ?s1) auto
    then have "runs_from [] ?s1 =
        takeWhile (\<lambda>c. \<not> is_delim c) ?s1
          # runs_from [] (drop 1 (dropWhile (\<lambda>c. \<not> is_delim c) ?s1))"
      using runs_from_split [of "[]" ?s1] by simp
    moreover from False have "strtok s =
        Some (takeWhile (\<lambda>c. \<not> is_delim c) ?s1, drop 1 (dropWhile (\<lambda>c. \<not> is_delim c) ?s1))"
      by (simp add: strtok_def Let_def)
    ultimately show ?thesis
      by (simp add: maximal_runs_def runs_from_skip)
  qed
qed

lemma strtok_None: "strtok s = None \<Longrightarrow> maximal_runs s = []"
  by (simp add: maximal_runs_strtok)

lemma strtok_Some: "strtok s = Some (token, s') \<Longrightarrow> maximal_runs s = token # maximal_runs s'"
  by (simp add: maximal_runs_strtok)

lemma split_loop_None:
  "strtok s = None \<Longrightarrow>
   split_loop os s bufsize position n_tokens tokens toks w =
     Returns (tokens, toks, bufsize, position, n_tokens) w"
  by (subst split_loop.simps) simp

lemma split_loop_Some:
  "strtok s = Some (token, s') \<Longrightarrow>
   split_loop os s bufsize position n_tokens tokens toks w =
     (if n_tokens + 1 > INT_MAX then Undefined
      else if \<not> (0 \<le> position \<and> position < bufsize) then Undefined
      else if position + 1 > INT_MAX then Undefined
      else if position + 1 \<ge> bufsize
      then (if bufsize + CHRISH_TOK_BUFSIZE > INT_MAX then Undefined
            else case realloc os tokens (nat (bufsize + CHRISH_TOK_BUFSIZE) * sizeof_ptr) w of
                   None \<Rightarrow> Undefined
                 | Some (Null, w1) \<Rightarrow>
                     (case free tokens w1 of
                        None \<Rightarrow> Undefined
                      | Some w2 \<Rightarrow>
                          Exits EXIT_FAILURE (put_err (''chrish: allocation error'' @ [NL]) w2))
                 | Some (Addr a, w1) \<Rightarrow>
                     split_loop os s' (bufsize + CHRISH_TOK_BUFSIZE) (position + 1)
                       (n_tokens + 1) (Addr a) (toks @ [token]) w1)
      else split_loop os s' bufsize (position + 1) (n_tokens + 1) tokens (toks @ [token]) w)"
  by (subst split_loop.simps) simp

lemma realloc_frame:
  "realloc os p n w = Some (q, w1) \<Longrightarrow>
   stdout w1 = stdout w \<and> stderr w1 = stderr w \<and> cwd w1 = cwd w \<and> waited w1 = waited w"
  by (auto simp: realloc_def malloc_def split: ptr.splits if_splits)

text \<open>What the loop returns, whenever it returns.\<close>

lemma split_loop_Returns:
  "split_loop os s bufsize position n_tokens tokens toks w =
     Returns (tokens', toks', bufsize', position', n_tokens') w' \<Longrightarrow>
   0 \<le> position \<and> position < bufsize \<Longrightarrow>
   toks' = toks @ maximal_runs s
   \<and> n_tokens' = n_tokens + int (length (maximal_runs s))
   \<and> position' = position + int (length (maximal_runs s))
   \<and> 0 \<le> position' \<and> position' < bufsize'
   \<and> stdout w' = stdout w \<and> stderr w' = stderr w \<and> cwd w' = cwd w \<and> waited w' = waited w"
proof (induction "length s" arbitrary: s bufsize position n_tokens tokens toks w rule: less_induct)
  case less
  show ?case
  proof (cases "strtok s")
    case None
    with less.prems show ?thesis
      by (simp add: split_loop_None strtok_None)
  next
    case (Some found)
    obtain token s' where found: "found = (token, s')"
      by (cases found)
    with Some have tok: "strtok s = Some (token, s')"
      by simp
    then have shorter: "length s' < length s"
      by (rule strtok_shorter)
    have runs: "maximal_runs s = token # maximal_runs s'"
      using tok by (rule strtok_Some)
    show ?thesis
    proof (cases "position + 1 \<ge> bufsize")
      case False
      with less.prems(1) tok
      have rec: "split_loop os s' bufsize (position + 1) (n_tokens + 1) tokens (toks @ [token]) w =
          Returns (tokens', toks', bufsize', position', n_tokens') w'"
        by (simp add: split_loop_Some split: if_splits)
      from False less.prems(2) have "0 \<le> position + 1 \<and> position + 1 < bufsize"
        by simp
      from less.hyps [OF shorter rec this] show ?thesis
        by (simp add: runs)
    next
      case True
      with less.prems tok
      obtain a w1 where
        grow: "realloc os tokens (nat (bufsize + CHRISH_TOK_BUFSIZE) * sizeof_ptr) w = Some (Addr a, w1)"
        and rec: "split_loop os s' (bufsize + CHRISH_TOK_BUFSIZE) (position + 1) (n_tokens + 1)
            (Addr a) (toks @ [token]) w1 =
          Returns (tokens', toks', bufsize', position', n_tokens') w'"
        by (auto simp: split_loop_Some split: if_splits option.splits prod.splits ptr.splits)
      from less.prems(2) have "0 \<le> position + 1 \<and> position + 1 < bufsize + CHRISH_TOK_BUFSIZE"
        by (simp add: CHRISH_TOK_BUFSIZE_def)
      from less.hyps [OF shorter rec this] realloc_frame [OF grow] show ?thesis
        by (simp add: runs)
    qed
  qed
qed


lemma grow_step_nat: "(64 * Suc (p div 64) \<le> Suc p) \<longleftrightarrow> Suc p div 64 = Suc (p div 64)"
proof -
  define q r where "q = p div 64" and "r = p mod 64"
  have p: "p = 64 * q + r" and r: "r < 64"
    by (simp_all add: q_def r_def)
  have "Suc p div 64 = (if r = 63 then Suc q else q)"
    unfolding div_Suc mod_Suc by (simp add: q_def r_def)
  moreover have "(64 * Suc q \<le> Suc p) \<longleftrightarrow> r = 63"
    using p r by auto
  ultimately show ?thesis
    unfolding q_def [symmetric] by simp
qed

lemma no_grow_step_nat: "\<not> (64 * Suc (p div 64) \<le> Suc p) \<longleftrightarrow> Suc p div 64 = p div 64"
  using grow_step_nat [of p] by (simp add: div_Suc)

lemma in_buffer_nat: "p < 64 * Suc (p div 64)"
proof -
  define q r where "q = p div 64" and "r = p mod 64"
  have p: "p = 64 * q + r" and r: "r < 64"
    by (simp_all add: q_def r_def)
  then have "p < 64 * Suc q"
    by simp
  then show ?thesis
    by (simp add: q_def)
qed

lemma grow_step:
  "(int (64 * Suc (p div 64)) \<le> int p + 1) \<longleftrightarrow> Suc p div 64 = Suc (p div 64)"
  using grow_step_nat [of p] by linarith

lemma no_grow_step:
  "\<not> (int (64 * Suc (p div 64)) \<le> int p + 1) \<longleftrightarrow> Suc p div 64 = p div 64"
  using no_grow_step_nat [of p] by linarith

lemma position_in_buffer: "0 \<le> int p \<and> int p < int (64 * Suc (p div 64))"
  using in_buffer_nat [of p] by linarith

lemma realloc_ok:
  "a \<in> live w \<Longrightarrow> sys_malloc os (nalloc w) n \<Longrightarrow>
   realloc os (Addr a) n w =
     Some (Addr (nalloc w), w\<lparr>live := insert (nalloc w) (live w - {a}), nalloc := Suc (nalloc w)\<rparr>)"
  by (simp add: realloc_def)

lemma realloc_fails:
  "a \<in> live w \<Longrightarrow> \<not> sys_malloc os (nalloc w) n \<Longrightarrow>
   realloc os (Addr a) n w = Some (Null, w\<lparr>nalloc := Suc (nalloc w)\<rparr>)"
  by (simp add: realloc_def)

lemma growth_request:
  "bufsize = int (64 * Suc k) \<Longrightarrow> nalloc w = base + Suc k \<Longrightarrow>
   sys_malloc os (nalloc w) (nat (bufsize + CHRISH_TOK_BUFSIZE) * sizeof_ptr) =
     request_granted os base (Suc k)"
proof -
  assume bufsize: "bufsize = int (64 * Suc k)" and made: "nalloc w = base + Suc k"
  from bufsize have "bufsize + CHRISH_TOK_BUFSIZE = int (64 * Suc (Suc k))"
    by (simp add: CHRISH_TOK_BUFSIZE_def)
  then have "nat (bufsize + CHRISH_TOK_BUFSIZE) = 64 * Suc (Suc k)"
    by (simp only: nat_int)
  with made show ?thesis
    by (simp add: request_granted_def sizeof_ptr_def)
qed

text \<open>The loop returns when every growth it needs is granted.\<close>

lemma split_loop_completes:
  assumes "a \<in> live w"
    and "position = int (length toks)" and "n_tokens = int (length toks)"
    and "bufsize = int (64 * Suc (length toks div 64))"
    and "nalloc w = base + Suc (length toks div 64)"
    and "length toks + length (maximal_runs s) < token_limit"
    and "\<forall>i. length toks div 64 < i \<and> i \<le> (length toks + length (maximal_runs s)) div 64 \<longrightarrow>
           request_granted os base i"
  shows "\<exists>a' bufsize' w'.
           split_loop os s bufsize position n_tokens (Addr a) toks w =
             Returns (Addr a', toks @ maximal_runs s, bufsize',
               int (length toks + length (maximal_runs s)),
               int (length toks + length (maximal_runs s))) w'"
  using assms
proof (induction "length s" arbitrary: s bufsize position n_tokens a toks w rule: less_induct)
  case less
  show ?case
  proof (cases "strtok s")
    case None
    then show ?thesis
      using less.prems by (simp add: split_loop_None strtok_None)
  next
    case (Some found)
    obtain token s' where "found = (token, s')"
      by (cases found)
    with Some have tok: "strtok s = Some (token, s')"
      by simp
    then have shorter: "length s' < length s"
      by (rule strtok_shorter)
    have runs: "maximal_runs s = token # maximal_runs s'"
      using tok by (rule strtok_Some)
    let ?p = "length toks"
    let ?N = "length toks + length (maximal_runs s)"
    have small: "Suc ?p < token_limit"
      using less.prems(6) by (simp add: runs)
    have inside: "0 \<le> position \<and> position < bufsize"
      using less.prems(2,4) position_in_buffer [of ?p] by simp
    have no_overflow: "\<not> n_tokens + 1 > INT_MAX" "\<not> position + 1 > INT_MAX"
      using small less.prems(2,3) by (simp_all add: INT_MAX_def token_limit_def)
    show ?thesis
    proof (cases "position + 1 \<ge> bufsize")
      case False
      then have same: "Suc ?p div 64 = ?p div 64"
        using less.prems(2,4) no_grow_step [of ?p] by simp
      have step: "split_loop os s bufsize position n_tokens (Addr a) toks w =
          split_loop os s' bufsize (position + 1) (n_tokens + 1) (Addr a) (toks @ [token]) w"
        using tok False inside no_overflow by (simp add: split_loop_Some)
      have "\<exists>a' bufsize' w'.
          split_loop os s' bufsize (position + 1) (n_tokens + 1) (Addr a) (toks @ [token]) w =
            Returns (Addr a', (toks @ [token]) @ maximal_runs s', bufsize',
              int (length (toks @ [token]) + length (maximal_runs s')),
              int (length (toks @ [token]) + length (maximal_runs s'))) w'"
      proof (rule less.hyps [OF shorter])
        show "a \<in> live w" by (rule less.prems(1))
        show "position + 1 = int (length (toks @ [token]))"
          using less.prems(2) by simp
        show "n_tokens + 1 = int (length (toks @ [token]))"
          using less.prems(3) by simp
        show "bufsize = int (64 * Suc (length (toks @ [token]) div 64))"
          using less.prems(4) same by simp
        show "nalloc w = base + Suc (length (toks @ [token]) div 64)"
          using less.prems(5) same by simp
        show "length (toks @ [token]) + length (maximal_runs s') < token_limit"
          using less.prems(6) by (simp add: runs)
        show "\<forall>i. length (toks @ [token]) div 64 < i
              \<and> i \<le> (length (toks @ [token]) + length (maximal_runs s')) div 64 \<longrightarrow>
            request_granted os base i"
          using less.prems(7) same by (simp add: runs)
      qed
      then show ?thesis
        by (simp add: step runs)
    next
      case True
      then have more: "Suc ?p div 64 = Suc (?p div 64)"
        using less.prems(2,4) grow_step [of ?p] by simp
      have "Suc ?p div 64 \<le> ?N div 64"
        by (rule div_le_mono) (simp add: runs)
      with more have needed: "?p div 64 < Suc (?p div 64) \<and> Suc (?p div 64) \<le> ?N div 64"
        by simp
      let ?n = "nat (bufsize + CHRISH_TOK_BUFSIZE) * sizeof_ptr"
      let ?w1 = "w\<lparr>live := insert (nalloc w) (live w - {a}), nalloc := Suc (nalloc w)\<rparr>"
      from needed less.prems(7) have "request_granted os base (Suc (?p div 64))"
        by blast
      then have "sys_malloc os (nalloc w) ?n"
        using growth_request [OF less.prems(4,5), of os] by simp
      with less.prems(1) have grow: "realloc os (Addr a) ?n w = Some (Addr (nalloc w), ?w1)"
        by (rule realloc_ok)
      have "bufsize \<le> int (Suc ?p)"
        using True less.prems(2) by simp
      with small have fits: "\<not> bufsize + CHRISH_TOK_BUFSIZE > INT_MAX"
        by (simp add: INT_MAX_def token_limit_def CHRISH_TOK_BUFSIZE_def)
      have step: "split_loop os s bufsize position n_tokens (Addr a) toks w =
          split_loop os s' (bufsize + CHRISH_TOK_BUFSIZE) (position + 1) (n_tokens + 1)
            (Addr (nalloc w)) (toks @ [token]) ?w1"
        using tok True inside no_overflow fits grow by (simp add: split_loop_Some)
      have "\<exists>a' bufsize' w'.
          split_loop os s' (bufsize + CHRISH_TOK_BUFSIZE) (position + 1) (n_tokens + 1)
            (Addr (nalloc w)) (toks @ [token]) ?w1 =
            Returns (Addr a', (toks @ [token]) @ maximal_runs s', bufsize',
              int (length (toks @ [token]) + length (maximal_runs s')),
              int (length (toks @ [token]) + length (maximal_runs s'))) w'"
      proof (rule less.hyps [OF shorter])
        show "nalloc w \<in> live ?w1" by simp
        show "position + 1 = int (length (toks @ [token]))"
          using less.prems(2) by simp
        show "n_tokens + 1 = int (length (toks @ [token]))"
          using less.prems(3) by simp
        show "bufsize + CHRISH_TOK_BUFSIZE = int (64 * Suc (length (toks @ [token]) div 64))"
          using less.prems(4) more by (simp add: CHRISH_TOK_BUFSIZE_def)
        show "nalloc ?w1 = base + Suc (length (toks @ [token]) div 64)"
          using less.prems(5) more by simp
        show "length (toks @ [token]) + length (maximal_runs s') < token_limit"
          using less.prems(6) by (simp add: runs)
        show "\<forall>i. length (toks @ [token]) div 64 < i
              \<and> i \<le> (length (toks @ [token]) + length (maximal_runs s')) div 64 \<longrightarrow>
            request_granted os base i"
          using less.prems(7) more by (simp add: runs)
      qed
      then show ?thesis
        by (simp add: step runs)
    qed
  qed
qed

text \<open>The loop ends the process at the first growth that is refused.\<close>

lemma split_loop_aborts:
  assumes "a \<in> live w"
    and "position = int (length toks)" and "n_tokens = int (length toks)"
    and "bufsize = int (64 * Suc (length toks div 64))"
    and "nalloc w = base + Suc (length toks div 64)"
    and "length toks div 64 < j" and "j \<le> (length toks + length (maximal_runs s)) div 64"
    and "j < token_limit div 64"
    and "\<forall>i. length toks div 64 < i \<and> i < j \<longrightarrow> request_granted os base i"
    and "\<not> request_granted os base j"
  shows "\<exists>w'. split_loop os s bufsize position n_tokens (Addr a) toks w = Exits EXIT_FAILURE w'
           \<and> stderr w' = stderr w @ ''chrish: allocation error'' @ [NL]
           \<and> stdout w' = stdout w \<and> cwd w' = cwd w \<and> waited w' = waited w"
  using assms
proof (induction "length s" arbitrary: s bufsize position n_tokens a toks w rule: less_induct)
  case less
  show ?case
  proof (cases "strtok s")
    case None
    then show ?thesis
      using less.prems(6,7) by (simp add: strtok_None)
  next
    case (Some found)
    obtain token s' where "found = (token, s')"
      by (cases found)
    with Some have tok: "strtok s = Some (token, s')"
      by simp
    then have shorter: "length s' < length s"
      by (rule strtok_shorter)
    have runs: "maximal_runs s = token # maximal_runs s'"
      using tok by (rule strtok_Some)
    let ?p = "length toks"
    have j: "j < 33554431"
      using less.prems(8) by (simp add: token_limit_def)
    have inside: "0 \<le> position \<and> position < bufsize"
      using less.prems(2,4) position_in_buffer [of ?p] by simp
    have "64 * Suc (?p div 64) \<le> 64 * j"
      using less.prems(6) by simp
    with j have room: "bufsize + 64 \<le> 2147483584"
      using less.prems(4) by simp
    with inside have no_overflow: "\<not> n_tokens + 1 > INT_MAX" "\<not> position + 1 > INT_MAX"
      and fits: "\<not> bufsize + CHRISH_TOK_BUFSIZE > INT_MAX"
      using less.prems(2,3) by (simp_all add: INT_MAX_def CHRISH_TOK_BUFSIZE_def)
    show ?thesis
    proof (cases "position + 1 \<ge> bufsize")
      case False
      then have same: "Suc ?p div 64 = ?p div 64"
        using less.prems(2,4) no_grow_step [of ?p] by simp
      have step: "split_loop os s bufsize position n_tokens (Addr a) toks w =
          split_loop os s' bufsize (position + 1) (n_tokens + 1) (Addr a) (toks @ [token]) w"
        using tok False inside no_overflow by (simp add: split_loop_Some)
      have "\<exists>w'. split_loop os s' bufsize (position + 1) (n_tokens + 1) (Addr a)
            (toks @ [token]) w = Exits EXIT_FAILURE w'
          \<and> stderr w' = stderr w @ ''chrish: allocation error'' @ [NL]
          \<and> stdout w' = stdout w \<and> cwd w' = cwd w \<and> waited w' = waited w"
      proof (rule less.hyps [OF shorter])
        show "a \<in> live w" by (rule less.prems(1))
        show "position + 1 = int (length (toks @ [token]))"
          using less.prems(2) by simp
        show "n_tokens + 1 = int (length (toks @ [token]))"
          using less.prems(3) by simp
        show "bufsize = int (64 * Suc (length (toks @ [token]) div 64))"
          using less.prems(4) same by simp
        show "nalloc w = base + Suc (length (toks @ [token]) div 64)"
          using less.prems(5) same by simp
        show "length (toks @ [token]) div 64 < j"
          using less.prems(6) same by simp
        show "j \<le> (length (toks @ [token]) + length (maximal_runs s')) div 64"
          using less.prems(7) by (simp add: runs)
        show "j < token_limit div 64" by (rule less.prems(8))
        show "\<forall>i. length (toks @ [token]) div 64 < i \<and> i < j \<longrightarrow> request_granted os base i"
          using less.prems(9) same by simp
        show "\<not> request_granted os base j" by (rule less.prems(10))
      qed
      then show ?thesis
        by (simp add: step)
    next
      case True
      then have more: "Suc ?p div 64 = Suc (?p div 64)"
        using less.prems(2,4) grow_step [of ?p] by simp
      let ?n = "nat (bufsize + CHRISH_TOK_BUFSIZE) * sizeof_ptr"
      note request = growth_request [OF less.prems(4,5), of os]
      show ?thesis
      proof (cases "Suc (?p div 64) = j")
        case True
        with less.prems(10) request have "\<not> sys_malloc os (nalloc w) ?n"
          by simp
        with less.prems(1)
        have "realloc os (Addr a) ?n w = Some (Null, w\<lparr>nalloc := Suc (nalloc w)\<rparr>)"
          by (rule realloc_fails)
        then show ?thesis
          using tok \<open>position + 1 \<ge> bufsize\<close> inside no_overflow fits less.prems(1)
          by (simp add: split_loop_Some free_def put_err_def)
      next
        case False
        with less.prems(6) have before: "Suc (?p div 64) < j"
          by simp
        let ?w1 = "w\<lparr>live := insert (nalloc w) (live w - {a}), nalloc := Suc (nalloc w)\<rparr>"
        from before less.prems(9) have "request_granted os base (Suc (?p div 64))"
          by simp
        with request have "sys_malloc os (nalloc w) ?n"
          by simp
        with less.prems(1) have grow: "realloc os (Addr a) ?n w = Some (Addr (nalloc w), ?w1)"
          by (rule realloc_ok)
        have step: "split_loop os s bufsize position n_tokens (Addr a) toks w =
            split_loop os s' (bufsize + CHRISH_TOK_BUFSIZE) (position + 1) (n_tokens + 1)
              (Addr (nalloc w)) (toks @ [token]) ?w1"
          using tok True inside no_overflow fits grow by (simp add: split_loop_Some)
        have "\<exists>w'. split_loop os s' (bufsize + CHRISH_TOK_BUFSIZE) (position + 1)
              (n_tokens + 1) (Addr (nalloc w)) (toks @ [token]) ?w1 = Exits EXIT_FAILURE w'
            \<and> stderr w' = stderr ?w1 @ ''chrish: allocation error'' @ [NL]
            \<and> stdout w' = stdout ?w1 \<and> cwd w' = cwd ?w1 \<and> waited w' = waited ?w1"
        proof (rule less.hyps [OF shorter])
          show "nalloc w \<in> live ?w1" by simp
          show "position + 1 = int (length (toks @ [token]))"
            using less.prems(2) by simp
          show "n_tokens + 1 = int (length (toks @ [token]))"
            using less.prems(3) by simp
          show "bufsize + CHRISH_TOK_BUFSIZE = int (64 * Suc (length (toks @ [token]) div 64))"
            using less.prems(4) more by (simp add: CHRISH_TOK_BUFSIZE_def)
          show "nalloc ?w1 = base + Suc (length (toks @ [token]) div 64)"
            using less.prems(5) more by simp
          show "length (toks @ [token]) div 64 < j"
            using before more by simp
          show "j \<le> (length (toks @ [token]) + length (maximal_runs s')) div 64"
            using less.prems(7) by (simp add: runs)
          show "j < token_limit div 64" by (rule less.prems(8))
          show "\<forall>i. length (toks @ [token]) div 64 < i \<and> i < j \<longrightarrow> request_granted os base i"
            using less.prems(9) more by simp
          show "\<not> request_granted os base j" by (rule less.prems(10))
        qed
        then show ?thesis
          by (simp add: step)
      qed
    qed
  qed
qed

text \<open>With \<open>token_limit\<close> tokens or more, and every growth before it granted, \<open>bufsize\<close>
  overflows.\<close>

lemma buffer_below_limit: "p < token_limit \<Longrightarrow> 64 * Suc (p div 64) \<le> token_limit"
proof -
  assume "p < token_limit"
  then have "p div 64 < 33554431"
    by (simp add: token_limit_def div_less_iff_less_mult)
  then show ?thesis
    by (simp add: token_limit_def)
qed

lemma split_loop_overflow:
  assumes "a \<in> live w"
    and "position = int (length toks)" and "n_tokens = int (length toks)"
    and "bufsize = int (64 * Suc (length toks div 64))"
    and "nalloc w = base + Suc (length toks div 64)"
    and "length toks < token_limit"
    and "token_limit \<le> length toks + length (maximal_runs s)"
    and "\<forall>i. length toks div 64 < i \<and> i < token_limit div 64 \<longrightarrow> request_granted os base i"
  shows "split_loop os s bufsize position n_tokens (Addr a) toks w = Undefined"
  using assms
proof (induction "length s" arbitrary: s bufsize position n_tokens a toks w rule: less_induct)
  case less
  show ?case
  proof (cases "strtok s")
    case None
    then show ?thesis
      using less.prems(6,7) by (simp add: strtok_None)
  next
    case (Some found)
    obtain token s' where "found = (token, s')"
      by (cases found)
    with Some have tok: "strtok s = Some (token, s')"
      by simp
    then have shorter: "length s' < length s"
      by (rule strtok_shorter)
    have runs: "maximal_runs s = token # maximal_runs s'"
      using tok by (rule strtok_Some)
    let ?p = "length toks"
    have inside: "0 \<le> position \<and> position < bufsize"
      using less.prems(2,4) position_in_buffer [of ?p] by simp
    have no_overflow: "\<not> n_tokens + 1 > INT_MAX" "\<not> position + 1 > INT_MAX"
      using less.prems(2,3,6) by (simp_all add: INT_MAX_def token_limit_def)
    show ?thesis
    proof (cases "position + 1 \<ge> bufsize")
      case False
      then have same: "Suc ?p div 64 = ?p div 64"
        using less.prems(2,4) no_grow_step [of ?p] by simp
      have step: "split_loop os s bufsize position n_tokens (Addr a) toks w =
          split_loop os s' bufsize (position + 1) (n_tokens + 1) (Addr a) (toks @ [token]) w"
        using tok False inside no_overflow by (simp add: split_loop_Some)
      have "int (Suc ?p) < bufsize"
        using False less.prems(2) by simp
      moreover have "bufsize \<le> int token_limit"
        using buffer_below_limit [OF less.prems(6)] less.prems(4) by linarith
      ultimately have below: "Suc ?p < token_limit"
        by linarith
      have "split_loop os s' bufsize (position + 1) (n_tokens + 1) (Addr a) (toks @ [token]) w
          = Undefined"
      proof (rule less.hyps [OF shorter])
        show "a \<in> live w" by (rule less.prems(1))
        show "position + 1 = int (length (toks @ [token]))"
          using less.prems(2) by simp
        show "n_tokens + 1 = int (length (toks @ [token]))"
          using less.prems(3) by simp
        show "bufsize = int (64 * Suc (length (toks @ [token]) div 64))"
          using less.prems(4) same by simp
        show "nalloc w = base + Suc (length (toks @ [token]) div 64)"
          using less.prems(5) same by simp
        show "length (toks @ [token]) < token_limit"
          using below by simp
        show "token_limit \<le> length (toks @ [token]) + length (maximal_runs s')"
          using less.prems(7) by (simp add: runs)
        show "\<forall>i. length (toks @ [token]) div 64 < i \<and> i < token_limit div 64 \<longrightarrow>
            request_granted os base i"
          using less.prems(8) same by simp
      qed
      then show ?thesis
        by (simp add: step)
    next
      case True
      then have more: "Suc ?p div 64 = Suc (?p div 64)"
        using less.prems(2,4) grow_step [of ?p] by simp
      show ?thesis
      proof (cases "bufsize + CHRISH_TOK_BUFSIZE > INT_MAX")
        case True
        then show ?thesis
          using tok \<open>position + 1 \<ge> bufsize\<close> inside no_overflow by (simp add: split_loop_Some)
      next
        case False
        let ?n = "nat (bufsize + CHRISH_TOK_BUFSIZE) * sizeof_ptr"
        let ?w1 = "w\<lparr>live := insert (nalloc w) (live w - {a}), nalloc := Suc (nalloc w)\<rparr>"
        from False less.prems(4) have "Suc (?p div 64) < 33554431"
          by (simp add: INT_MAX_def CHRISH_TOK_BUFSIZE_def)
        then have "?p div 64 < Suc (?p div 64) \<and> Suc (?p div 64) < token_limit div 64"
          by (simp add: token_limit_def)
        with less.prems(8) have "request_granted os base (Suc (?p div 64))"
          by blast
        then have "sys_malloc os (nalloc w) ?n"
          using growth_request [OF less.prems(4,5), of os] by simp
        with less.prems(1) have grow: "realloc os (Addr a) ?n w = Some (Addr (nalloc w), ?w1)"
          by (rule realloc_ok)
        have step: "split_loop os s bufsize position n_tokens (Addr a) toks w =
            split_loop os s' (bufsize + CHRISH_TOK_BUFSIZE) (position + 1) (n_tokens + 1)
              (Addr (nalloc w)) (toks @ [token]) ?w1"
          using tok True inside no_overflow False grow by (simp add: split_loop_Some)
        have "int (Suc ?p) = bufsize"
          using True inside less.prems(2) by simp
        with False have below: "Suc ?p < token_limit"
          by (simp add: INT_MAX_def token_limit_def CHRISH_TOK_BUFSIZE_def)
        have "split_loop os s' (bufsize + CHRISH_TOK_BUFSIZE) (position + 1) (n_tokens + 1)
            (Addr (nalloc w)) (toks @ [token]) ?w1 = Undefined"
        proof (rule less.hyps [OF shorter])
          show "nalloc w \<in> live ?w1" by simp
          show "position + 1 = int (length (toks @ [token]))"
            using less.prems(2) by simp
          show "n_tokens + 1 = int (length (toks @ [token]))"
            using less.prems(3) by simp
          show "bufsize + CHRISH_TOK_BUFSIZE = int (64 * Suc (length (toks @ [token]) div 64))"
            using less.prems(4) more by (simp add: CHRISH_TOK_BUFSIZE_def)
          show "nalloc ?w1 = base + Suc (length (toks @ [token]) div 64)"
            using less.prems(5) more by simp
          show "length (toks @ [token]) < token_limit"
            using below by simp
          show "token_limit \<le> length (toks @ [token]) + length (maximal_runs s')"
            using less.prems(7) by (simp add: runs)
          show "\<forall>i. length (toks @ [token]) div 64 < i \<and> i < token_limit div 64 \<longrightarrow>
              request_granted os base i"
            using less.prems(8) more by simp
        qed
        then show ?thesis
          by (simp add: step)
      qed
    qed
  qed
qed

text \<open>The heap after the loop: the block of the vector has taken the place of the block
  the loop was entered with.\<close>

lemma split_loop_heap:
  "split_loop os s bufsize position n_tokens (Addr a) toks w =
     Returns (tokens', toks', bufsize', position', n_tokens') w' \<Longrightarrow>
   a \<in> live w \<Longrightarrow> heap_ok w \<Longrightarrow>
   \<exists>a'. tokens' = Addr a' \<and> a' \<in> live w' \<and> live w' - {a'} = live w - {a} \<and> heap_ok w'"
proof (induction "length s" arbitrary: s bufsize position n_tokens a toks w rule: less_induct)
  case less
  show ?case
  proof (cases "strtok s")
    case None
    with less.prems show ?thesis
      by (auto simp: split_loop_None)
  next
    case (Some found)
    obtain token s' where "found = (token, s')"
      by (cases found)
    with Some have tok: "strtok s = Some (token, s')"
      by simp
    then have shorter: "length s' < length s"
      by (rule strtok_shorter)
    show ?thesis
    proof (cases "position + 1 \<ge> bufsize")
      case False
      with less.prems(1) tok
      have rec: "split_loop os s' bufsize (position + 1) (n_tokens + 1) (Addr a) (toks @ [token]) w =
          Returns (tokens', toks', bufsize', position', n_tokens') w'"
        by (simp add: split_loop_Some split: if_splits)
      from less.hyps [OF shorter rec less.prems(2,3)] show ?thesis .
    next
      case True
      with less.prems(1) tok
      obtain b w1 where
        grow: "realloc os (Addr a) (nat (bufsize + CHRISH_TOK_BUFSIZE) * sizeof_ptr) w = Some (Addr b, w1)"
        and rec: "split_loop os s' (bufsize + CHRISH_TOK_BUFSIZE) (position + 1) (n_tokens + 1)
            (Addr b) (toks @ [token]) w1 =
          Returns (tokens', toks', bufsize', position', n_tokens') w'"
        by (auto simp: split_loop_Some split: if_splits option.splits prod.splits ptr.splits)
      from grow less.prems(2)
      have b: "b = nalloc w"
        and w1: "w1 = w\<lparr>live := insert (nalloc w) (live w - {a}), nalloc := Suc (nalloc w)\<rparr>"
        by (auto simp: realloc_def split: if_splits)
      from less.prems(3) have fresh: "nalloc w \<notin> live w"
        by (auto simp: heap_ok_def)
      have "b \<in> live w1" and "heap_ok w1"
        using b w1 less.prems(3) by (auto simp: heap_ok_def less_Suc_eq)
      from less.hyps [OF shorter rec this]
      obtain a' where "tokens' = Addr a'" "a' \<in> live w'" "live w' - {a'} = live w1 - {b}"
        "heap_ok w'"
        by blast
      moreover have "live w1 - {b} = live w - {a}"
        using b w1 fresh by auto
      ultimately show ?thesis
        by simp
    qed
  qed
qed

subsection \<open>The specification's runs\<close>

lemma runs_from_words:
  "list_all (\<lambda>c. \<not> is_delim c) run \<Longrightarrow> \<forall>t \<in> set (runs_from run s). is_word t"
proof (induction s arbitrary: run)
  case Nil
  then show ?case
    by (simp add: is_word_def)
next
  case (Cons c cs)
  have fresh: "\<forall>t \<in> set (runs_from [] cs). is_word t"
    using Cons.IH [of "[]"] by simp
  have longer: "\<forall>t \<in> set (runs_from (run @ [c]) cs). is_word t" if "\<not> is_delim c"
    using Cons.IH [of "run @ [c]"] Cons.prems that by simp
  show ?case
    using fresh longer Cons.prems by (auto simp: is_word_def)
qed

lemma maximal_runs_words: "\<forall>t \<in> set (maximal_runs s). is_word t"
  using runs_from_words [of "[]" s] by (simp add: maximal_runs_def)

lemma concat_runs_from: "concat (runs_from run s) = run @ filter (\<lambda>c. \<not> is_delim c) s"
  by (induction s arbitrary: run) auto

lemma concat_maximal_runs: "concat (maximal_runs s) = filter (\<lambda>c. \<not> is_delim c) s"
  by (simp add: maximal_runs_def concat_runs_from)

lemma runs_from_lead: "list_all is_delim lead \<Longrightarrow> runs_from [] (lead @ s) = runs_from [] s"
  by (induction lead) auto

lemma runs_from_word:
  "list_all (\<lambda>c. \<not> is_delim c) word \<Longrightarrow> runs_from run (word @ s) = runs_from (run @ word) s"
  by (induction word arbitrary: run) auto

lemma runs_from_separator:
  "is_separator sep \<Longrightarrow> run \<noteq> [] \<Longrightarrow> runs_from run (sep @ s) = run # runs_from [] s"
  by (cases sep) (auto simp: is_separator_def runs_from_lead)

lemma maximal_runs_word_sep:
  "is_word word \<Longrightarrow> is_separator sep \<Longrightarrow>
   maximal_runs (word @ sep @ s) = word # maximal_runs s"
  by (simp add: maximal_runs_def is_word_def runs_from_word runs_from_separator)

lemma maximal_runs_words_line:
  "list_all (\<lambda>(word, sep). is_word word \<and> is_separator sep) wss \<Longrightarrow>
   list_all (\<lambda>c. \<not> is_delim c) final \<Longrightarrow>
   maximal_runs (words_line wss @ final) = map fst wss @ (if final = [] then [] else [final])"
proof (induction wss)
  case Nil
  then show ?case
    using runs_from_word [of final "[]" "[]"] by (simp add: maximal_runs_def)
next
  case (Cons ws wss)
  then show ?case
    by (cases ws) (simp add: maximal_runs_word_sep)
qed

lemma maximal_runs_line:
  "list_all is_delim lead \<Longrightarrow>
   list_all (\<lambda>(word, sep). is_word word \<and> is_separator sep) wss \<Longrightarrow>
   list_all (\<lambda>c. \<not> is_delim c) final \<Longrightarrow>
   maximal_runs (lead @ words_line wss @ final) =
     map fst wss @ (if final = [] then [] else [final])"
  using maximal_runs_words_line [of wss final]
  by (simp add: maximal_runs_def runs_from_lead)

lemma maximal_runs_delims: "list_all is_delim s \<Longrightarrow> maximal_runs s = []"
  using runs_from_lead [of s "[]"] by (simp add: maximal_runs_def)

lemma c_string_id: "NUL \<notin> set line \<Longrightarrow> c_string line = line"
  by (auto simp: c_string_def)

lemma is_delim_iff:
  "is_delim c \<longleftrightarrow> c \<in> {CHR 0x20, CHR 0x09, CHR 0x0D, CHR 0x0A, CHR 0x07}"
  by (simp add: is_delim_def CHRISH_TOK_DELIM_def)

lemma maximal_runs_replicate: "maximal_runs (concat (replicate n ''a '')) = replicate n ''a''"
  by (induction n) (simp_all add: maximal_runs_def is_delim_def CHRISH_TOK_DELIM_def)

lemma c_string_replicate: "c_string (concat (replicate n ''a '')) = concat (replicate n ''a '')"
  by (rule c_string_id) (simp add: NUL_def)

subsection \<open>chrish_split_line\<close>

lemma chrish_split_line_Returns:
  assumes "chrish_split_line os line w = Returns (p, toks) w'"
  shows "toks = maximal_runs (c_string line)
     \<and> stdout w' = stdout w @ show_int (int (length toks)) @ [NL]
     \<and> stderr w' = stderr w \<and> cwd w' = cwd w \<and> waited w' = waited w"
proof -
  from assms obtain a w1 tokens bufsize position n_tokens w2 where
    m: "malloc os (nat CHRISH_TOK_BUFSIZE * sizeof_ptr) w = (Addr a, w1)"
    and l: "split_loop os (c_string line) CHRISH_TOK_BUFSIZE 0 0 (Addr a) [] w1 =
        Returns (tokens, toks, bufsize, position, n_tokens) w2"
    and w': "w' = put_out (show_int n_tokens @ [NL]) w2"
    by (auto simp: chrish_split_line_def split: prod.splits ptr.splits outcome.splits if_splits)
  have "(0::int) \<le> 0 \<and> 0 < CHRISH_TOK_BUFSIZE"
    by (simp add: CHRISH_TOK_BUFSIZE_def)
  from split_loop_Returns [OF l this]
  have "toks = maximal_runs (c_string line)"
    and "n_tokens = int (length (maximal_runs (c_string line)))"
    and "stdout w2 = stdout w1 \<and> stderr w2 = stderr w1 \<and> cwd w2 = cwd w1 \<and> waited w2 = waited w1"
    by simp_all
  moreover from m
  have "stdout w1 = stdout w \<and> stderr w1 = stderr w \<and> cwd w1 = cwd w \<and> waited w1 = waited w"
    by (auto simp: malloc_def split: if_splits)
  ultimately show ?thesis
    using w' by (simp add: put_out_def)
qed

lemma chrish_split_line_heap:
  assumes "chrish_split_line os line w = Returns (p, toks) w'" and "heap_ok w"
  shows "\<exists>a. p = Addr a \<and> a \<notin> live w \<and> live w' = insert a (live w) \<and> heap_ok w'"
proof -
  from assms(1) obtain a w1 bufsize position n_tokens w2 where
    m: "malloc os (nat CHRISH_TOK_BUFSIZE * sizeof_ptr) w = (Addr a, w1)"
    and l: "split_loop os (c_string line) CHRISH_TOK_BUFSIZE 0 0 (Addr a) [] w1 =
        Returns (p, toks, bufsize, position, n_tokens) w2"
    and w': "w' = put_out (show_int n_tokens @ [NL]) w2"
    by (auto simp: chrish_split_line_def split: prod.splits ptr.splits outcome.splits if_splits)
  from m have a: "a = nalloc w"
    and w1: "w1 = w\<lparr>live := insert (nalloc w) (live w), nalloc := Suc (nalloc w)\<rparr>"
    by (auto simp: malloc_def split: if_splits)
  from assms(2) have fresh: "nalloc w \<notin> live w"
    by (auto simp: heap_ok_def)
  have "a \<in> live w1" and "heap_ok w1"
    using a w1 assms(2) by (auto simp: heap_ok_def less_Suc_eq)
  from split_loop_heap [OF l this]
  obtain a' where "p = Addr a'" "a' \<in> live w2" "live w2 - {a'} = live w1 - {a}" "heap_ok w2"
    by blast
  moreover have "live w1 - {a} = live w"
    using a w1 fresh by auto
  ultimately have "p = Addr a' \<and> a' \<notin> live w \<and> live w2 = insert a' (live w) \<and> heap_ok w2"
    by auto
  then show ?thesis
    using w' by (auto simp: put_out_def heap_ok_def)
qed

lemma first_request:
  "sys_malloc os (nalloc w) (nat CHRISH_TOK_BUFSIZE * sizeof_ptr) = request_granted os (nalloc w) 0"
  by (simp add: request_granted_def CHRISH_TOK_BUFSIZE_def sizeof_ptr_def)

lemma chrish_split_line_completes:
  assumes "length (maximal_runs (c_string line)) < token_limit"
    and "\<forall>i \<le> length (maximal_runs (c_string line)) div 64. request_granted os (nalloc w) i"
  shows "\<exists>p w'. chrish_split_line os line w = Returns (p, maximal_runs (c_string line)) w'"
proof -
  let ?w1 = "w\<lparr>live := insert (nalloc w) (live w), nalloc := Suc (nalloc w)\<rparr>"
  let ?N = "length (maximal_runs (c_string line))"
  from assms(2) have "request_granted os (nalloc w) 0"
    by blast
  then have m: "malloc os (nat CHRISH_TOK_BUFSIZE * sizeof_ptr) w = (Addr (nalloc w), ?w1)"
    by (simp add: malloc_def first_request)
  have "\<exists>a' bufsize' w'.
      split_loop os (c_string line) CHRISH_TOK_BUFSIZE 0 0 (Addr (nalloc w)) [] ?w1 =
        Returns (Addr a', [] @ maximal_runs (c_string line), bufsize',
          int (length ([]::string list) + ?N), int (length ([]::string list) + ?N)) w'"
  proof (rule split_loop_completes [where base = "nalloc w"])
    show "nalloc w \<in> live ?w1" by simp
    show "CHRISH_TOK_BUFSIZE = int (64 * Suc (length ([]::string list) div 64))"
      by (simp add: CHRISH_TOK_BUFSIZE_def)
    show "length ([]::string list) + ?N < token_limit"
      using assms(1) by simp
    show "\<forall>i. length ([]::string list) div 64 < i \<and> i \<le> (length ([]::string list) + ?N) div 64 \<longrightarrow>
        request_granted os (nalloc w) i"
      using assms(2) by simp
  qed simp_all
  then obtain a' bufsize' w2 where
    l: "split_loop os (c_string line) CHRISH_TOK_BUFSIZE 0 0 (Addr (nalloc w)) [] ?w1 =
        Returns (Addr a', maximal_runs (c_string line), bufsize', int ?N, int ?N) w2"
    by auto
  have "(0::int) \<le> 0 \<and> 0 < CHRISH_TOK_BUFSIZE"
    by (simp add: CHRISH_TOK_BUFSIZE_def)
  from split_loop_Returns [OF l this] have "0 \<le> int ?N \<and> int ?N < bufsize'"
    by simp
  with m l show ?thesis
    by (simp add: chrish_split_line_def)
qed

lemma chrish_split_line_aborts:
  assumes "j \<le> length (maximal_runs (c_string line)) div 64"
    and "j < token_limit div 64"
    and "\<forall>i < j. request_granted os (nalloc w) i"
    and "\<not> request_granted os (nalloc w) j"
  shows "\<exists>w'. chrish_split_line os line w = Exits EXIT_FAILURE w'
     \<and> stderr w' = stderr w @ ''chrish: allocation error'' @ [NL]
     \<and> stdout w' = stdout w \<and> cwd w' = cwd w \<and> waited w' = waited w"
proof (cases j)
  case 0
  with assms(4) have "malloc os (nat CHRISH_TOK_BUFSIZE * sizeof_ptr) w =
      (Null, w\<lparr>nalloc := Suc (nalloc w)\<rparr>)"
    by (simp add: malloc_def first_request)
  then show ?thesis
    by (simp add: chrish_split_line_def put_err_def)
next
  case (Suc j')
  let ?w1 = "w\<lparr>live := insert (nalloc w) (live w), nalloc := Suc (nalloc w)\<rparr>"
  let ?N = "length (maximal_runs (c_string line))"
  from Suc assms(3) have "request_granted os (nalloc w) 0"
    by blast
  then have m: "malloc os (nat CHRISH_TOK_BUFSIZE * sizeof_ptr) w = (Addr (nalloc w), ?w1)"
    by (simp add: malloc_def first_request)
  have "\<exists>w'. split_loop os (c_string line) CHRISH_TOK_BUFSIZE 0 0 (Addr (nalloc w)) [] ?w1 =
        Exits EXIT_FAILURE w'
      \<and> stderr w' = stderr ?w1 @ ''chrish: allocation error'' @ [NL]
      \<and> stdout w' = stdout ?w1 \<and> cwd w' = cwd ?w1 \<and> waited w' = waited ?w1"
  proof (rule split_loop_aborts [where base = "nalloc w" and j = j])
    show "nalloc w \<in> live ?w1" by simp
    show "CHRISH_TOK_BUFSIZE = int (64 * Suc (length ([]::string list) div 64))"
      by (simp add: CHRISH_TOK_BUFSIZE_def)
    show "length ([]::string list) div 64 < j"
      using Suc by simp
    show "j \<le> (length ([]::string list) + ?N) div 64"
      using assms(1) by simp
    show "j < token_limit div 64" by (rule assms(2))
    show "\<forall>i. length ([]::string list) div 64 < i \<and> i < j \<longrightarrow> request_granted os (nalloc w) i"
      using assms(3) by simp
    show "\<not> request_granted os (nalloc w) j" by (rule assms(4))
  qed simp_all
  with m show ?thesis
    by (auto simp: chrish_split_line_def)
qed

lemma chrish_split_line_overflow:
  assumes "token_limit \<le> length (maximal_runs (c_string line))"
    and "\<forall>i < token_limit div 64. request_granted os (nalloc w) i"
  shows "chrish_split_line os line w = Undefined"
proof -
  let ?w1 = "w\<lparr>live := insert (nalloc w) (live w), nalloc := Suc (nalloc w)\<rparr>"
  have "(0::nat) < token_limit div 64"
    by (simp add: token_limit_def)
  with assms(2) have "request_granted os (nalloc w) 0"
    by blast
  then have m: "malloc os (nat CHRISH_TOK_BUFSIZE * sizeof_ptr) w = (Addr (nalloc w), ?w1)"
    by (simp add: malloc_def first_request)
  have "split_loop os (c_string line) CHRISH_TOK_BUFSIZE 0 0 (Addr (nalloc w)) [] ?w1 = Undefined"
  proof (rule split_loop_overflow [where base = "nalloc w"])
    show "nalloc w \<in> live ?w1" by simp
    show "CHRISH_TOK_BUFSIZE = int (64 * Suc (length ([]::string list) div 64))"
      by (simp add: CHRISH_TOK_BUFSIZE_def)
    show "length ([]::string list) < token_limit"
      by (simp add: token_limit_def)
    show "token_limit \<le> length ([]::string list) + length (maximal_runs (c_string line))"
      using assms(1) by simp
    show "\<forall>i. length ([]::string list) div 64 < i \<and> i < token_limit div 64 \<longrightarrow>
        request_granted os (nalloc w) i"
      using assms(2) by simp
  qed simp_all
  with m show ?thesis
    by (simp add: chrish_split_line_def)
qed

text \<open>
  C2, as stated, fails: not every input line is split into its maximal runs. The line is
  read as a C string, so \<open>strtok\<close> stops at the first NUL: on the line \<open>ls\<close>, NUL, \<open> -l\<close>,
  newline the vector holds \<open>ls\<close> only, while the line has two maximal runs of characters
  that are not delimiters.
\<close>

theorem chrish_split_line_stops_at_nul:
  "chrish_split_line example_os (''ls'' @ [NUL] @ '' -l'' @ [NL]) example_world =
     Returns (Addr 0, [''ls''])
       (example_world\<lparr>stdout := ''1'' @ [NL], live := {0}, nalloc := 1\<rparr>)
   \<and> maximal_runs (''ls'' @ [NUL] @ '' -l'' @ [NL]) = [''ls'' @ [NUL], ''-l'']"
  by (simp add: chrish_split_line_def malloc_def example_os_def example_world_def
      CHRISH_TOK_BUFSIZE_def sizeof_ptr_def c_string_def NUL_def NL_def split_loop.simps
      strtok_def is_delim_def CHRISH_TOK_DELIM_def INT_MAX_def put_out_def show_int_def
      show_nat.simps maximal_runs_def)

text \<open>
  C2, amended. For every input line, tokenization works on the text of the line before its
  first NUL (all of the line when it holds none). Whenever \<open>chrish_split_line\<close> returns, the
  vector is exactly the maximal runs of characters of that text that are not delimiters,
  in their order; and it does return when the text has fewer than 2147483584 runs and
  each of its allocation requests is granted. Every token is a word (not empty, no
  delimiter in it); the tokens concatenated are the text without its delimiters; a text
  made of leading delimiters, \<open>N\<close> words each followed by a non-empty run of delimiters,
  and possibly a last word with nothing behind it, yields exactly these words; a text of
  delimiters only yields the empty vector; and the delimiters are exactly space, tab,
  carriage return, newline and bell.
\<close>

theorem chrish_split_line_tokens:
  "(\<forall>p toks w'. chrish_split_line os line w = Returns (p, toks) w' \<longrightarrow>
      toks = maximal_runs (c_string line))
   \<and> (length (maximal_runs (c_string line)) < token_limit
        \<and> (\<forall>i \<le> length (maximal_runs (c_string line)) div 64. request_granted os (nalloc w) i) \<longrightarrow>
        (\<exists>p w'. chrish_split_line os line w = Returns (p, maximal_runs (c_string line)) w'))
   \<and> c_string line = takeWhile (\<lambda>c. c \<noteq> NUL) line
   \<and> (NUL \<notin> set line \<longrightarrow> c_string line = line)
   \<and> (\<forall>t \<in> set (maximal_runs (c_string line)). is_word t)
   \<and> concat (maximal_runs (c_string line)) = filter (\<lambda>c. \<not> is_delim c) (c_string line)
   \<and> (\<forall>lead wss final.
         list_all is_delim lead
         \<and> list_all (\<lambda>(word, sep). is_word word \<and> is_separator sep) wss
         \<and> list_all (\<lambda>c. \<not> is_delim c) final
         \<and> c_string line = lead @ words_line wss @ final \<longrightarrow>
         maximal_runs (c_string line) = map fst wss @ (if final = [] then [] else [final]))
   \<and> (list_all is_delim (c_string line) \<longrightarrow> maximal_runs (c_string line) = [])
   \<and> (\<forall>c. is_delim c \<longleftrightarrow> c \<in> {CHR 0x20, CHR 0x09, CHR 0x0D, CHR 0x0A, CHR 0x07})"
proof (intro conjI)
  show "\<forall>p toks w'. chrish_split_line os line w = Returns (p, toks) w' \<longrightarrow>
      toks = maximal_runs (c_string line)"
    using chrish_split_line_Returns [of os line w] by blast
  show "length (maximal_runs (c_string line)) < token_limit
        \<and> (\<forall>i \<le> length (maximal_runs (c_string line)) div 64. request_granted os (nalloc w) i) \<longrightarrow>
        (\<exists>p w'. chrish_split_line os line w = Returns (p, maximal_runs (c_string line)) w')"
    using chrish_split_line_completes [of line os w] by blast
  show "c_string line = takeWhile (\<lambda>c. c \<noteq> NUL) line"
    by (simp add: c_string_def)
  show "NUL \<notin> set line \<longrightarrow> c_string line = line"
    by (simp add: c_string_id)
  show "\<forall>t \<in> set (maximal_runs (c_string line)). is_word t"
    by (rule maximal_runs_words)
  show "concat (maximal_runs (c_string line)) = filter (\<lambda>c. \<not> is_delim c) (c_string line)"
    by (rule concat_maximal_runs)
  show "\<forall>lead wss final.
         list_all is_delim lead
         \<and> list_all (\<lambda>(word, sep). is_word word \<and> is_separator sep) wss
         \<and> list_all (\<lambda>c. \<not> is_delim c) final
         \<and> c_string line = lead @ words_line wss @ final \<longrightarrow>
         maximal_runs (c_string line) = map fst wss @ (if final = [] then [] else [final])"
    using maximal_runs_line by simp
  show "list_all is_delim (c_string line) \<longrightarrow> maximal_runs (c_string line) = []"
    by (simp add: maximal_runs_delims)
  show "\<forall>c. is_delim c \<longleftrightarrow> c \<in> {CHR 0x20, CHR 0x09, CHR 0x0D, CHR 0x0A, CHR 0x07}"
    by (simp add: is_delim_iff)
qed

theorem chrish_split_line_tokens_witness:
  "(\<exists>p w'. chrish_split_line example_os (''ls  -l'' @ [CHR 0x09] @ ''/tmp'' @ [NL]) example_world =
      Returns (p, [''ls'', ''-l'', ''/tmp'']) w')
   \<and> (\<exists>p w'. chrish_split_line example_os ('' '' @ [CHR 0x09, CHR 0x0D, CHR 0x07, NL]) example_world =
      Returns (p, []) w')
   \<and> maximal_runs (c_string (''ls'' @ [NUL] @ '' -l'' @ [NL])) = [''ls'']
   \<and> is_word ''-l''
   \<and> is_delim (CHR 0x07)"
proof -
  let ?line = "''ls  -l'' @ [CHR 0x09] @ ''/tmp'' @ [NL]"
  let ?blank = "'' '' @ [CHR 0x09, CHR 0x0D, CHR 0x07, NL]"
  let ?cut = "''ls'' @ [NUL] @ '' -l'' @ [NL]"
  have granted: "request_granted example_os (nalloc example_world) i" for i
    by (simp add: request_granted_def example_os_def)
  have no_nul: "NUL \<notin> set ?line" "NUL \<notin> set ?blank"
    by (simp_all add: NUL_def NL_def)
  note line_facts = chrish_split_line_tokens [of example_os ?line example_world]
  note line_result = line_facts [THEN conjunct2, THEN conjunct1, rule_format]
  note line_text = line_facts [THEN conjunct2, THEN conjunct2, THEN conjunct2, THEN conjunct1,
      rule_format, OF no_nul(1)]
  note line_words = line_facts [THEN conjunct2, THEN conjunct2, THEN conjunct2, THEN conjunct2,
      THEN conjunct1]
  note line_shape = line_facts [THEN conjunct2, THEN conjunct2, THEN conjunct2, THEN conjunct2,
      THEN conjunct2, THEN conjunct2, THEN conjunct1,
      rule_format, of "[]" "[(''ls'', ''  ''), (''-l'', [CHR 0x09]), (''/tmp'', [NL])]" "[]"]
  note delims = line_facts [THEN conjunct2, THEN conjunct2, THEN conjunct2, THEN conjunct2,
      THEN conjunct2, THEN conjunct2, THEN conjunct2, THEN conjunct2, rule_format, of "CHR 0x07"]
  have shape: "list_all is_delim []
      \<and> list_all (\<lambda>(word, sep). is_word word \<and> is_separator sep)
          [(''ls'', ''  ''), (''-l'', [CHR 0x09]), (''/tmp'', [NL])]
      \<and> list_all (\<lambda>c. \<not> is_delim c) []
      \<and> c_string ?line = [] @ words_line [(''ls'', ''  ''), (''-l'', [CHR 0x09]), (''/tmp'', [NL])] @ []"
    unfolding line_text
    by (simp add: is_word_def is_separator_def is_delim_def CHRISH_TOK_DELIM_def NL_def)
  have tokens: "maximal_runs (c_string ?line) = [''ls'', ''-l'', ''/tmp'']"
    using line_shape [OF shape] by simp
  have "length (maximal_runs (c_string ?line)) < token_limit
      \<and> (\<forall>i \<le> length (maximal_runs (c_string ?line)) div 64.
            request_granted example_os (nalloc example_world) i)"
    unfolding tokens using granted by (simp add: token_limit_def)
  from line_result [OF this]
  have 1: "\<exists>p w'. chrish_split_line example_os ?line example_world =
      Returns (p, [''ls'', ''-l'', ''/tmp'']) w'"
    unfolding tokens .
  have 4: "is_word ''-l''"
    using line_words unfolding tokens by simp
  have 5: "is_delim (CHR 0x07)"
    using delims by simp
  note blank_facts = chrish_split_line_tokens [of example_os ?blank example_world]
  note blank_result = blank_facts [THEN conjunct2, THEN conjunct1, rule_format]
  note blank_text = blank_facts [THEN conjunct2, THEN conjunct2, THEN conjunct2, THEN conjunct1,
      rule_format, OF no_nul(2)]
  note blank_runs = blank_facts [THEN conjunct2, THEN conjunct2, THEN conjunct2, THEN conjunct2,
      THEN conjunct2, THEN conjunct2, THEN conjunct2, THEN conjunct1, rule_format]
  have "list_all is_delim (c_string ?blank)"
    unfolding blank_text by (simp add: is_delim_def CHRISH_TOK_DELIM_def NL_def)
  then have none: "maximal_runs (c_string ?blank) = []"
    by (rule blank_runs)
  have "length (maximal_runs (c_string ?blank)) < token_limit
      \<and> (\<forall>i \<le> length (maximal_runs (c_string ?blank)) div 64.
            request_granted example_os (nalloc example_world) i)"
    unfolding none using granted by (simp add: token_limit_def)
  from blank_result [OF this]
  have 2: "\<exists>p w'. chrish_split_line example_os ?blank example_world = Returns (p, []) w'"
    unfolding none .
  have cut: "chrish_split_line example_os ?cut example_world =
      Returns (Addr 0, [''ls''])
        (example_world\<lparr>stdout := ''1'' @ [NL], live := {0}, nalloc := 1\<rparr>)"
    by code_simp
  note cut_facts = chrish_split_line_tokens [of example_os ?cut example_world]
  from cut_facts [THEN conjunct1, rule_format, OF cut]
  have 3: "maximal_runs (c_string ?cut) = [''ls'']"
    by (rule sym)
  from 1 2 3 4 5 show ?thesis
    by (intro conjI)
qed

text \<open>
  C8. For an oracle of the allocator that may answer by request and by size, and every
  line: when the text has fewer than 2147483584 tokens and the initial request and every
  growth request (one for every 64 tokens, each for 64 more pointers) are granted,
  \<open>chrish_split_line\<close> returns all the tokens; when the first request that is refused is one
  that the line needs, the process ends through \<open>exit(EXIT_FAILURE)\<close> with
  \<open>chrish: allocation error\<close> appended to the error stream and nothing written to the
  standard output. The number of tokens is not unbounded, though: the counters are \<open>int\<close>s,
  and on a text of 2147483584 tokens or more, with the requests granted, the growth step
  \<open>bufsize += CHRISH_TOK_BUFSIZE\<close> passes \<open>INT_MAX\<close>, which is undefined.
\<close>

theorem chrish_split_line_storage:
  "(length (maximal_runs (c_string line)) < token_limit
      \<and> (\<forall>i \<le> length (maximal_runs (c_string line)) div 64. request_granted os (nalloc w) i) \<longrightarrow>
      (\<exists>p w'. chrish_split_line os line w = Returns (p, maximal_runs (c_string line)) w'))
   \<and> (\<forall>j. j \<le> length (maximal_runs (c_string line)) div 64
        \<and> j < token_limit div 64
        \<and> (\<forall>i < j. request_granted os (nalloc w) i)
        \<and> \<not> request_granted os (nalloc w) j \<longrightarrow>
        (\<exists>w'. chrish_split_line os line w = Exits EXIT_FAILURE w'
           \<and> stderr w' = stderr w @ ''chrish: allocation error'' @ [NL]
           \<and> stdout w' = stdout w \<and> cwd w' = cwd w))
   \<and> (token_limit \<le> length (maximal_runs (c_string line))
        \<and> (\<forall>i < token_limit div 64. request_granted os (nalloc w) i) \<longrightarrow>
        chrish_split_line os line w = Undefined)
   \<and> (\<forall>base i. request_granted os base i = sys_malloc os (base + i) (8 * (64 * (i + 1))))"
proof (intro conjI)
  show "length (maximal_runs (c_string line)) < token_limit
      \<and> (\<forall>i \<le> length (maximal_runs (c_string line)) div 64. request_granted os (nalloc w) i) \<longrightarrow>
      (\<exists>p w'. chrish_split_line os line w = Returns (p, maximal_runs (c_string line)) w')"
    using chrish_split_line_completes [of line os w] by blast
  show "\<forall>j. j \<le> length (maximal_runs (c_string line)) div 64
        \<and> j < token_limit div 64
        \<and> (\<forall>i < j. request_granted os (nalloc w) i)
        \<and> \<not> request_granted os (nalloc w) j \<longrightarrow>
        (\<exists>w'. chrish_split_line os line w = Exits EXIT_FAILURE w'
           \<and> stderr w' = stderr w @ ''chrish: allocation error'' @ [NL]
           \<and> stdout w' = stdout w \<and> cwd w' = cwd w)"
    using chrish_split_line_aborts [of _ line os w] by blast
  show "token_limit \<le> length (maximal_runs (c_string line))
        \<and> (\<forall>i < token_limit div 64. request_granted os (nalloc w) i) \<longrightarrow>
        chrish_split_line os line w = Undefined"
    using chrish_split_line_overflow [of line os w] by blast
  show "\<forall>base i. request_granted os base i = sys_malloc os (base + i) (8 * (64 * (i + 1)))"
    by (simp add: request_granted_def)
qed

theorem chrish_split_line_storage_witness:
  "(\<exists>p w'. chrish_split_line example_os (concat (replicate 65 ''a '')) example_world =
      Returns (p, replicate 65 ''a'') w')
   \<and> (\<exists>w'. chrish_split_line (example_os\<lparr>sys_malloc := (\<lambda>i n. n \<le> 512)\<rparr>)
          (concat (replicate 64 ''a '')) example_world = Exits EXIT_FAILURE w'
        \<and> stderr w' = ''chrish: allocation error'' @ [NL])
   \<and> (\<exists>w'. chrish_split_line (example_os\<lparr>sys_malloc := (\<lambda>i n. False)\<rparr>)
          (''ls'' @ [NL]) example_world = Exits EXIT_FAILURE w'
        \<and> stderr w' = ''chrish: allocation error'' @ [NL])
   \<and> chrish_split_line example_os (concat (replicate 2147483584 ''a '')) example_world = Undefined"
proof -
  let ?sized = "example_os\<lparr>sys_malloc := (\<lambda>i n. n \<le> 512)\<rparr>"
  let ?none = "example_os\<lparr>sys_malloc := (\<lambda>i n. False)\<rparr>"
  have runs: "maximal_runs (c_string (concat (replicate n ''a ''))) = replicate n ''a''" for n
    unfolding c_string_replicate maximal_runs_replicate by (rule refl)
  have count: "length (maximal_runs (c_string (concat (replicate n ''a '')))) = n" for n
    unfolding runs by (rule length_replicate)
  have granted: "request_granted example_os base i" for base i
    by (simp add: request_granted_def example_os_def)
  have "length (maximal_runs (c_string (concat (replicate 65 ''a '')))) < token_limit
      \<and> (\<forall>i \<le> length (maximal_runs (c_string (concat (replicate 65 ''a '')))) div 64.
            request_granted example_os (nalloc example_world) i)"
    unfolding count using granted by (simp add: token_limit_def)
  with chrish_split_line_storage [of "concat (replicate 65 ''a '')" example_os example_world]
  have 1: "\<exists>p w'. chrish_split_line example_os (concat (replicate 65 ''a '')) example_world =
      Returns (p, replicate 65 ''a'') w'"
    unfolding runs by blast
  have "1 \<le> length (maximal_runs (c_string (concat (replicate 64 ''a '')))) div 64
      \<and> 1 < token_limit div 64
      \<and> (\<forall>i < 1. request_granted ?sized (nalloc example_world) i)
      \<and> \<not> request_granted ?sized (nalloc example_world) 1"
    unfolding count by (simp add: token_limit_def request_granted_def)
  with chrish_split_line_storage [of "concat (replicate 64 ''a '')" ?sized example_world]
  have "\<exists>w'. chrish_split_line ?sized (concat (replicate 64 ''a '')) example_world =
        Exits EXIT_FAILURE w'
      \<and> stderr w' = stderr example_world @ ''chrish: allocation error'' @ [NL]"
    by blast
  then have 2: "\<exists>w'. chrish_split_line ?sized (concat (replicate 64 ''a '')) example_world =
        Exits EXIT_FAILURE w'
      \<and> stderr w' = ''chrish: allocation error'' @ [NL]"
    by (simp add: example_world_def)
  have "0 \<le> length (maximal_runs (c_string (''ls'' @ [NL]))) div 64
      \<and> 0 < token_limit div 64
      \<and> (\<forall>i < 0. request_granted ?none (nalloc example_world) i)
      \<and> \<not> request_granted ?none (nalloc example_world) 0"
    by (simp add: token_limit_def request_granted_def)
  with chrish_split_line_storage [of "''ls'' @ [NL]" ?none example_world]
  have "\<exists>w'. chrish_split_line ?none (''ls'' @ [NL]) example_world = Exits EXIT_FAILURE w'
      \<and> stderr w' = stderr example_world @ ''chrish: allocation error'' @ [NL]"
    by blast
  then have 3: "\<exists>w'. chrish_split_line ?none (''ls'' @ [NL]) example_world = Exits EXIT_FAILURE w'
      \<and> stderr w' = ''chrish: allocation error'' @ [NL]"
    by (simp add: example_world_def)
  have "token_limit \<le> length (maximal_runs (c_string (concat (replicate 2147483584 ''a ''))))"
    unfolding count token_limit_def by (rule order_refl)
  moreover have "\<forall>i < token_limit div 64. request_granted example_os (nalloc example_world) i"
    using granted by blast
  ultimately
  have 4: "chrish_split_line example_os (concat (replicate 2147483584 ''a '')) example_world
      = Undefined"
    using chrish_split_line_storage [of "concat (replicate 2147483584 ''a '')" example_os
        example_world]
    by blast
  from 1 2 3 4 show ?thesis
    by (intro conjI)
qed

section \<open>The interactive loop: proofs\<close>

subsection \<open>What the pieces leave alone\<close>


lemma malloc_heap:
  "malloc os n w = (p, w1) \<Longrightarrow> heap_ok w \<Longrightarrow>
   heap_ok w1 \<and> (p = Null \<and> live w1 = live w
     \<or> (\<exists>a. p = Addr a \<and> a \<notin> live w \<and> live w1 = insert a (live w)))"
  by (auto simp: malloc_def heap_ok_def less_Suc_eq split: if_splits)



lemma chrish_read_line_heap:
  "chrish_read_line os input w = ((ret, line, text), input', w1) \<Longrightarrow> heap_ok w \<Longrightarrow>
   heap_ok w1 \<and> (line = Null \<and> live w1 = live w
     \<or> (\<exists>a. line = Addr a \<and> a \<notin> live w \<and> live w1 = insert a (live w)))"
  by (auto simp: chrish_read_line_def getline_def malloc_def heap_ok_def less_Suc_eq
      split: prod.splits ptr.splits list.splits if_splits)

lemma wait_loop_frame:
  "wait_loop changes w = Some w' \<Longrightarrow>
   stdout w' = stdout w \<and> stderr w' = stderr w \<and> cwd w' = cwd w
   \<and> live w' = live w \<and> nalloc w' = nalloc w"
  by (induction changes arbitrary: w) (auto simp: Let_def split: if_splits)

lemma chrish_execute_heap:
  "chrish_execute os args w = Returns status w' \<Longrightarrow> live w' = live w \<and> nalloc w' = nalloc w"
  by (auto simp: chrish_execute_dispatch chrish_cd_def chrish_help_eq chrish_exit_def
      chrish_launch_def put_err_def put_out_def perror_def
      dest: wait_loop_frame
      split: list.splits if_splits read.splits option.splits sum.splits fork_result.splits)

lemma chrish_execute_Exits:
  "chrish_execute os args w = Exits st w' \<Longrightarrow> st = EXIT_FAILURE"
  by (auto simp: chrish_execute_dispatch chrish_cd_def chrish_help_eq chrish_exit_def
      chrish_launch_def
      split: list.splits if_splits read.splits option.splits sum.splits fork_result.splits)

lemma split_loop_Exits:
  "split_loop os s bufsize position n_tokens tokens toks w = Exits st w' \<Longrightarrow> st = EXIT_FAILURE"
proof (induction "length s" arbitrary: s bufsize position n_tokens tokens toks w rule: less_induct)
  case less
  show ?case
  proof (cases "strtok s")
    case None
    with less.prems show ?thesis
      by (simp add: split_loop_None)
  next
    case (Some found)
    obtain token s' where "found = (token, s')"
      by (cases found)
    with Some have tok: "strtok s = Some (token, s')"
      by simp
    then have shorter: "length s' < length s"
      by (rule strtok_shorter)
    from less.prems tok show ?thesis
      by (auto simp: split_loop_Some dest: less.hyps [OF shorter]
          split: if_splits option.splits prod.splits ptr.splits)
  qed
qed

lemma chrish_split_line_Exits:
  "chrish_split_line os line w = Exits st w' \<Longrightarrow> st = EXIT_FAILURE"
  by (auto simp: chrish_split_line_def dest: split_loop_Exits
      split: prod.splits ptr.splits outcome.splits if_splits)







lemma chrish_iteration_ReturnsE:
  assumes "chrish_iteration os args input w = Returns (status, args', input') w'"
  obtains ret line buf w1 tokens toks w3 w4 w5 where
    "chrish_read_line os input (put_out ''> '' w) = ((ret, line, buf), input', w1)"
    "ret \<noteq> - 1"
    "chrish_split_line os buf (put_out (show_int ret @ [NL]) w1) = Returns (tokens, toks) w3"
    "chrish_execute os toks w3 = Returns status w4"
    "free line w4 = Some w5" "free tokens w5 = Some w'" "args' = Holds tokens"
proof -
  obtain ret line buf inp w1 where
    read: "chrish_read_line os input (put_out ''> '' w) = ((ret, line, buf), inp, w1)"
    by (metis prod_cases3)
  let ?w2 = "put_out (show_int ret @ [NL]) w1"
  from assms read have ret: "ret \<noteq> - 1"
    by (auto simp: chrish_iteration_def Let_def split: option.splits local_var.splits)
  with assms read obtain tokens toks w3 where
    split: "chrish_split_line os buf ?w2 = Returns (tokens, toks) w3"
    by (auto simp: chrish_iteration_def Let_def split: outcome.splits)
  with assms read ret obtain st w4 where
    exec: "chrish_execute os toks w3 = Returns st w4"
    by (auto simp: chrish_iteration_def Let_def split: outcome.splits)
  with assms read ret split obtain w5 where
    f1: "free line w4 = Some w5"
    by (auto simp: chrish_iteration_def Let_def split: option.splits)
  with assms read ret split exec
  have "free tokens w5 = Some w'" "args' = Holds tokens" "st = status" "inp = input'"
    by (auto simp: chrish_iteration_def Let_def split: option.splits)
  with read ret split exec f1 that show ?thesis
    by blast
qed

text \<open>On the paths through dispatch both blocks are released, and \<open>args\<close> is left
  pointing to the block that was released.\<close>

lemma chrish_iteration_heap:
  assumes "chrish_iteration os args input w = Returns (status, args', input') w'"
    and "heap_ok w"
  shows "live w' = live w \<and> heap_ok w' \<and> dangling w' args'"
proof -
  from assms(1) obtain ret line buf w1 tokens toks w3 w4 w5 where
    read: "chrish_read_line os input (put_out ''> '' w) = ((ret, line, buf), input', w1)"
    and split: "chrish_split_line os buf (put_out (show_int ret @ [NL]) w1) = Returns (tokens, toks) w3"
    and exec: "chrish_execute os toks w3 = Returns status w4"
    and f1: "free line w4 = Some w5" and f2: "free tokens w5 = Some w'"
    and args': "args' = Holds tokens"
    by (rule chrish_iteration_ReturnsE)
  let ?w0 = "put_out ''> '' w"
  let ?w2 = "put_out (show_int ret @ [NL]) w1"
  have ok0: "heap_ok ?w0" and live0: "live ?w0 = live w"
    using assms(2) by (simp_all add: heap_ok_def put_out_def)
  from chrish_read_line_heap [OF read ok0]
  have ok1: "heap_ok w1"
    and line: "line = Null \<and> live w1 = live w
      \<or> (\<exists>a. line = Addr a \<and> a \<notin> live w \<and> live w1 = insert a (live w))"
    by (simp_all add: live0)
  have ok2: "heap_ok ?w2" and live2: "live ?w2 = live w1"
    using ok1 by (simp_all add: heap_ok_def put_out_def)
  from chrish_split_line_heap [OF split ok2]
  obtain b where b: "tokens = Addr b" "b \<notin> live w1" "live w3 = insert b (live w1)"
    and ok3: "heap_ok w3"
    by (auto simp: live2)
  from chrish_execute_heap [OF exec] have w4: "live w4 = live w3" "nalloc w4 = nalloc w3"
    by simp_all
  from f1 line have w5: "live w5 = insert b (live w)" "nalloc w5 = nalloc w4"
    using b w4 by (auto simp: free_def split: if_splits)
  from f2 b w5 line have w': "live w' = live w" "nalloc w' = nalloc w5"
    by (auto simp: free_def split: if_splits)
  have "heap_ok w'"
    using ok3 w4 w5 w' b line unfolding heap_ok_def by auto
  moreover have "dangling w' args'"
    using args' b w' line by (auto simp: dangling_def)
  ultimately show ?thesis
    using w' by simp
qed

text \<open>At the end of the input, \<open>free(args)\<close> is undefined.\<close>

lemma chrish_iteration_end_of_input:
  assumes "dangling w args"
  shows "chrish_iteration os args [] w = Undefined"
proof -
  obtain ret line buf inp w1 where
    read: "chrish_read_line os [] (put_out ''> '' w) = ((ret, line, buf), inp, w1)"
    by (metis prod_cases3)
  then have ret: "ret = - 1"
    and line: "line = Null \<and> live w1 = live w
      \<or> line = Addr (nalloc w) \<and> live w1 = insert (nalloc w) (live w)"
    by (auto simp: chrish_read_line_def getline_def malloc_def put_out_def
        split: prod.splits ptr.splits if_splits)
  let ?w2 = "put_out (show_int ret @ [NL]) w1"
  show ?thesis
  proof (cases "free line ?w2")
    case None
    with read ret show ?thesis
      by (simp add: chrish_iteration_def)
  next
    case (Some w3)
    with line have "live w3 \<subseteq> live w"
      by (auto simp: free_def put_out_def split: if_splits)
    with assms have "args = Indeterminate \<or> (\<exists>p. args = Holds p \<and> free p w3 = None)"
      by (auto simp: dangling_def free_def split: local_var.splits ptr.splits)
    with read ret Some show ?thesis
      by (auto simp: chrish_iteration_def)
  qed
qed

text \<open>A pass never ends the process with a success status.\<close>

lemma chrish_iteration_never_succeeds:
  assumes "dangling w args"
  shows "chrish_iteration os args input w \<noteq> Exits EXIT_SUCCESS w'"
proof
  assume exits: "chrish_iteration os args input w = Exits EXIT_SUCCESS w'"
  obtain ret line buf inp w1 where
    read: "chrish_read_line os input (put_out ''> '' w) = ((ret, line, buf), inp, w1)"
    by (metis prod_cases3)
  let ?w2 = "put_out (show_int ret @ [NL]) w1"
  show False
  proof (cases "ret = - 1")
    case True
    from read have line: "line = Null \<and> live w1 = live w
        \<or> line = Addr (nalloc w) \<and> live w1 = insert (nalloc w) (live w)"
      by (auto simp: chrish_read_line_def getline_def malloc_def put_out_def
          split: prod.splits ptr.splits if_splits list.splits)
    show False
    proof (cases "free line ?w2")
      case None
      with read True exits show False
        by (simp add: chrish_iteration_def)
    next
      case (Some w3)
      with line have "live w3 \<subseteq> live w"
        by (auto simp: free_def put_out_def split: if_splits)
      with assms have "args = Indeterminate \<or> (\<exists>p. args = Holds p \<and> free p w3 = None)"
        by (auto simp: dangling_def free_def split: local_var.splits ptr.splits)
      with read True Some exits show False
        by (auto simp: chrish_iteration_def)
    qed
  next
    case False
    with read exits
    have "(\<exists>w. chrish_split_line os buf ?w2 = Exits EXIT_SUCCESS w)
        \<or> (\<exists>toks w3 w. chrish_execute os toks w3 = Exits EXIT_SUCCESS w)"
      by (auto simp: chrish_iteration_def Let_def split: outcome.splits option.splits) blast
    then have "EXIT_SUCCESS = EXIT_FAILURE"
      using chrish_split_line_Exits chrish_execute_Exits by blast
    then show False
      by (simp add: EXIT_SUCCESS_def EXIT_FAILURE_def)
  qed
qed

lemma chrish_loop_never_succeeds:
  "heap_ok w \<Longrightarrow> dangling w args \<Longrightarrow> chrish_loop os args input w \<noteq> Exits EXIT_SUCCESS w'"
proof (induction "length input" arbitrary: input args w rule: less_induct)
  case less
  show ?case
  proof (cases "chrish_iteration os args input w")
    case (Returns r w1)
    obtain status args' input' where r: "r = (status, args', input')"
      by (cases r)
    from Returns r have it: "chrish_iteration os args input w = Returns (status, args', input') w1"
      by simp
    then have shorter: "length input' < length input"
      by (rule chrish_iteration_consumes)
    from chrish_iteration_heap [OF it less.prems(1)] have "heap_ok w1" "dangling w1 args'"
      by simp_all
    from less.hyps [OF shorter this]
    have "chrish_loop os args' input' w1 \<noteq> Exits EXIT_SUCCESS w'" .
    with it show ?thesis
      by (subst chrish_loop.simps) simp
  next
    case (Exits st w1)
    with chrish_iteration_never_succeeds [OF less.prems(2), of os input w1] show ?thesis
      by (subst chrish_loop.simps) auto
  qed (subst chrish_loop.simps, simp)+
qed




text \<open>
  C9. On the paths of a pass that go through dispatch (\<open>Continue\<close> and \<open>Terminate\<close>) the
  line and the vector are both released: the live blocks are those from before the pass.
  \<open>args\<close> is left pointing to the released vector. On the end-of-input path the code calls
  \<open>free(args)\<close> all the same: with \<open>args\<close> never assigned (the first pass) or dangling
  (every later pass) the behaviour is undefined, so the release is not valid on that path.
\<close>
theorem chrish_iteration_release:
  "(\<forall>status args' input' w'.
      heap_ok w \<and> chrish_iteration os args input w = Returns (status, args', input') w' \<longrightarrow>
      live w' = live w \<and> dangling w' args')
   \<and> (dangling w args \<longrightarrow> chrish_iteration os args [] w = Undefined)
   \<and> chrish_iteration os Indeterminate [] w = Undefined"
proof -
  have "dangling w Indeterminate"
    by (simp add: dangling_def)
  then have "chrish_iteration os Indeterminate [] w = Undefined"
    by (rule chrish_iteration_end_of_input)
  then show ?thesis
    using chrish_iteration_heap [of os args input w] chrish_iteration_end_of_input [of w args os]
    by blast
qed

theorem chrish_iteration_release_witness:
  "dangling (example_world\<lparr>stdout := ''> 8'' @ [NL] @ ''2'' @ [NL], cwd := ''/tmp'', nalloc := 2\<rparr>)
     (Holds (Addr 1))
   \<and> chrish_iteration example_os (Holds (Addr 1)) []
       (example_world\<lparr>stdout := ''> 8'' @ [NL] @ ''2'' @ [NL], cwd := ''/tmp'', nalloc := 2\<rparr>)
     = Undefined
   \<and> chrish_iteration example_os Indeterminate [] example_world = Undefined"
proof -
  let ?w1 = "example_world\<lparr>stdout := ''> 8'' @ [NL] @ ''2'' @ [NL], cwd := ''/tmp'', nalloc := 2\<rparr>"
  have ok: "heap_ok example_world"
    by (simp add: heap_ok_def example_world_def)
  have pass: "chrish_iteration example_os Indeterminate [''cd /tmp'' @ [NL]] example_world =
      Returns (1, Holds (Addr 1), []) ?w1"
    by code_simp
  note first = chrish_iteration_release [of example_world example_os Indeterminate
      "[''cd /tmp'' @ [NL]]"]
  from first [THEN conjunct1, rule_format, of 1 "Holds (Addr 1)" "[]" ?w1] ok pass
  have 1: "dangling ?w1 (Holds (Addr 1))"
    by blast
  note second = chrish_iteration_release [of ?w1 example_os "Holds (Addr 1)" "[]"]
  from second [THEN conjunct2, THEN conjunct1] 1
  have 2: "chrish_iteration example_os (Holds (Addr 1)) [] ?w1 = Undefined"
    by blast
  from first [THEN conjunct2, THEN conjunct2]
  have 3: "chrish_iteration example_os Indeterminate [] example_world = Undefined" .
  from 1 2 3 show ?thesis
    by (intro conjI)
qed

text \<open>
  C5. From a well-formed heap the loop never ends the process with a success status: the
  end-of-input path, the one that calls \<open>exit(EXIT_SUCCESS)\<close>, runs into the undefined
  \<open>free(args)\<close> first. \<open>main\<close> exits with success only when the loop itself returns, that is
  after the \<open>exit\<close> builtin; with no input at all its behaviour is undefined.
\<close>
theorem end_of_input_never_exits:
  "(heap_ok w \<longrightarrow> (\<forall>w'. chrish_loop os Indeterminate input w \<noteq> Exits EXIT_SUCCESS w'))
   \<and> (heap_ok w \<longrightarrow>
        (\<forall>w'. main os input w = Exits EXIT_SUCCESS w' \<longrightarrow>
           (\<exists>u. chrish_loop os Indeterminate input w = Returns u w')))
   \<and> main os [] w = Undefined"
proof -
  have never: "chrish_loop os Indeterminate input w \<noteq> Exits EXIT_SUCCESS w'" if "heap_ok w" for w'
    using that by (intro chrish_loop_never_succeeds) (simp_all add: dangling_def)
  have through: "\<exists>u. chrish_loop os Indeterminate input w = Returns u w'"
    if "heap_ok w" "main os input w = Exits EXIT_SUCCESS w'" for w'
    using that never [of w'] by (auto simp: main_def split: outcome.splits)
  have "dangling w Indeterminate"
    by (simp add: dangling_def)
  then have "chrish_iteration os Indeterminate [] w = Undefined"
    by (rule chrish_iteration_end_of_input)
  then have "main os [] w = Undefined"
    by (simp add: main_def chrish_loop.simps)
  with never through show ?thesis
    by blast
qed

theorem end_of_input_never_exits_witness:
  "main example_os [] example_world = Undefined
   \<and> main example_os [''help'' @ [NL]] example_world = Undefined
   \<and> chrish_loop example_os Indeterminate [''help'' @ [NL]] example_world
       \<noteq> Exits EXIT_SUCCESS example_world
   \<and> (\<exists>u w'. main example_os [''exit'' @ [NL]] example_world = Exits EXIT_SUCCESS w'
         \<and> chrish_loop example_os Indeterminate [''exit'' @ [NL]] example_world = Returns u w')"
proof -
  have ok: "heap_ok example_world"
    by (simp add: heap_ok_def example_world_def)
  note at_once = end_of_input_never_exits [of example_world example_os "[]"]
  note after_help = end_of_input_never_exits [of example_world example_os "[''help'' @ [NL]]"]
  note after_exit = end_of_input_never_exits [of example_world example_os "[''exit'' @ [NL]]"]
  have 1: "main example_os [] example_world = Undefined"
    using at_once by blast
  have 2: "main example_os [''help'' @ [NL]] example_world = Undefined"
    by code_simp
  have 3: "chrish_loop example_os Indeterminate [''help'' @ [NL]] example_world
       \<noteq> Exits EXIT_SUCCESS example_world"
    using after_help ok by blast
  have leaves: "main example_os [''exit'' @ [NL]] example_world =
      Exits EXIT_SUCCESS (example_world\<lparr>stdout := ''> 5'' @ [NL] @ ''1'' @ [NL], nalloc := 2\<rparr>)"
    by code_simp
  with after_exit ok
  have 4: "\<exists>u w'. main example_os [''exit'' @ [NL]] example_world = Exits EXIT_SUCCESS w'
         \<and> chrish_loop example_os Indeterminate [''exit'' @ [NL]] example_world = Returns u w'"
    by blast
  from 1 2 3 4 show ?thesis
    by (intro conjI)
qed

end
